theory Spec2Isabelle
  imports Main "HOL-Library.AList"
begin

section \<open>Data model of PostPanel.js\<close>

text \<open>
  The embedding follows \<^verbatim>\<open>src/components/structures/PostPanel.js\<close>.
  JavaScript values are modelled as follows.
  \<^item> A value that may be \<^verbatim>\<open>null\<close> or \<^verbatim>\<open>undefined\<close> is an \<open>option\<close>.
  \<^item> A string used as a condition is truthy iff it is present and non-empty (\<open>truthy\<close>).
  \<^item> Timestamps are integers.
  \<^item> A plain object used as a dictionary (\<^verbatim>\<open>receiptsByEvent\<close>, \<^verbatim>\<open>receiptsByUserId\<close>)
    is an association list in insertion order: assigning to an existing key keeps the key's
    position, assigning to a new key appends it, and \<^verbatim>\<open>for (k in obj)\<close> walks the list.
    This is JavaScript's order for keys that are not array indices; Matrix event ids
    (\<^verbatim>\<open>$...\<close>) and user ids (\<^verbatim>\<open>@...\<close>) are never array indices nor names of
    properties inherited from \<^verbatim>\<open>Object.prototype\<close>.
  \<^item> \<^verbatim>\<open>===\<close> on two event objects compares references. An event carries its reference
    in the field \<open>objRef\<close>, and two events are the same object iff the records are equal.
\<close>

record RoomMember =
  userId :: string
  name :: string
  getMxcAvatarUrl :: "string option"

record in_reply_to =
  event_id :: "string option"

record relates_to =
  m_in_reply_to :: "in_reply_to option"

record MatrixEvent =
  objRef :: nat
  getId :: string
  getTxnId :: "string option"
  sender :: "RoomMember option"
  getSender :: string
  getType :: string
  getTs :: int
  isRedacted :: bool
  status :: "string option"
  getAssociatedStatus :: "string option"
  m_relates_to :: "relates_to option"

definition truthy :: "string option \<Rightarrow> bool" where
  "truthy s = (case s of None \<Rightarrow> False | Some x \<Rightarrow> x \<noteq> [])"

section \<open>Continuation detection\<close>

definition CONTINUATION_MAX_INTERVAL :: int where
  "CONTINUATION_MAX_INTERVAL = 5 * 60 * 1000"

definition continuedTypes :: "string list" where
  "continuedTypes = [''m.sticker'', ''m.room.message'']"

definition messageTypes :: "string list" where
  "messageTypes = [''m.sticker'', ''m.room.message'']"

text \<open>
  \<^verbatim>\<open>shouldFormContinuation(prevEvent, mxEvent)\<close>. The imported predicate
  \<^verbatim>\<open>haveTileForEvent\<close> is a parameter. The checks are made in the order of the source.
\<close>

definition shouldFormContinuation ::
  "(MatrixEvent \<Rightarrow> bool) \<Rightarrow> MatrixEvent option \<Rightarrow> MatrixEvent \<Rightarrow> bool" where
  "shouldFormContinuation haveTileForEvent prevEvent mxEvent =
     (case prevEvent of
        None \<Rightarrow> False
      | Some prev \<Rightarrow>
          (case sender prev of
             None \<Rightarrow> False
           | Some prevSender \<Rightarrow>
               (case sender mxEvent of
                  None \<Rightarrow> False
                | Some mxSender \<Rightarrow>
                    if getTs mxEvent - getTs prev > CONTINUATION_MAX_INTERVAL then False
                    else if isRedacted mxEvent \<noteq> isRedacted prev then False
                    else if getType mxEvent \<noteq> getType prev \<and>
                            (getType mxEvent \<notin> set continuedTypes \<or>
                             getType prev \<notin> set continuedTypes) then False
                    else if userId mxSender \<noteq> userId prevSender \<or>
                            name mxSender \<noteq> name prevSender \<or>
                            getMxcAvatarUrl mxSender \<noteq> getMxcAvatarUrl prevSender then False
                    else if \<not> haveTileForEvent prev then False
                    else True)))"

section \<open>Collaborators, props and instance state\<close>

text \<open>
  What the component imports and does not define is a parameter: the client
  (\<^verbatim>\<open>MatrixClientPeg.get()\<close>), \<^verbatim>\<open>haveTileForEvent\<close> and \<^verbatim>\<open>shouldHideEvent\<close>.
\<close>

record Env =
  isUserIgnored :: "string \<Rightarrow> bool"
  credentials_userId :: string
  getUserId :: string
  haveTileForEvent :: "MatrixEvent \<Rightarrow> bool"
  shouldHideEvent :: "MatrixEvent \<Rightarrow> bool"

text \<open>A raw receipt of the room: \<^verbatim>\<open>{userId, type, data: {ts}}\<close>.\<close>

record receipt_data =
  data_ts :: int

record RawReceipt =
  raw_userId :: "string option"
  raw_type :: string
  raw_data :: "receipt_data option"

record Room =
  getReceiptsForEvent :: "MatrixEvent \<Rightarrow> RawReceipt list"
  getMember :: "string \<Rightarrow> RoomMember option"

text \<open>The receipt objects the panel builds: \<^verbatim>\<open>{userId, roomMember, ts}\<close>.\<close>

record Receipt =
  receipt_userId :: string
  roomMember :: "RoomMember option"
  ts :: int

text \<open>An entry of \<^verbatim>\<open>_readReceiptsByUserId\<close>: \<^verbatim>\<open>{lastShownEventId, receipt}\<close>.\<close>

record CacheEntry =
  lastShownEventId :: string
  receipt :: Receipt

type_synonym ReceiptsByEvent = "(string \<times> Receipt list) list"
type_synonym ReceiptsByUserId = "(string \<times> CacheEntry) list"

record Props =
  events :: "MatrixEvent list"
  highlightedEventId :: "string option"
  room :: "Room option"
  readMarkerEventId :: "string option"
  readMarkerVisible :: bool
  showReadReceipts :: bool

text \<open>
  The instance: \<^verbatim>\<open>this.state.ghostReadMarkers\<close>, \<^verbatim>\<open>this._showHiddenEventsInTimeline\<close>,
  \<^verbatim>\<open>this._readReceiptsByEvent\<close> and \<^verbatim>\<open>this._readReceiptsByUserId\<close>. A ghost entry is
  the previous \<^verbatim>\<open>readMarkerEventId\<close> prop, which may be undefined.
\<close>

record Panel =
  ghostReadMarkers :: "string option list"
  showHiddenEventsInTimeline :: bool
  readReceiptsByEvent :: ReceiptsByEvent
  readReceiptsByUserId :: ReceiptsByUserId

text \<open>The constructor: empty ghost list and empty receipt maps.\<close>

definition constructor :: "bool \<Rightarrow> Panel" where
  "constructor showHidden =
     \<lparr>ghostReadMarkers = [], showHiddenEventsInTimeline = showHidden,
      readReceiptsByEvent = [], readReceiptsByUserId = []\<rparr>"

datatype error = TypeError

section \<open>Ghost read markers\<close>

definition componentDidUpdate :: "Props \<Rightarrow> Props \<Rightarrow> Panel \<Rightarrow> Panel" where
  "componentDidUpdate prevProps props this =
     (if readMarkerVisible prevProps \<and> readMarkerEventId props \<noteq> readMarkerEventId prevProps
      then this\<lparr>ghostReadMarkers := ghostReadMarkers this @ [readMarkerEventId prevProps]\<rparr>
      else this)"

definition onGhostTransitionEnd :: "string option \<Rightarrow> Panel \<Rightarrow> Panel" where
  "onGhostTransitionEnd finishedEventId this =
     this\<lparr>ghostReadMarkers := filter (\<lambda>eid. eid \<noteq> finishedEventId) (ghostReadMarkers this)\<rparr>"

text \<open>
  The two callbacks that write \<^verbatim>\<open>ghostReadMarkers\<close>, as signals delivered to the instance
  one at a time.
\<close>

datatype signal = DidUpdate Props Props | GhostTransitionEnd "string option"

fun deliver :: "signal \<Rightarrow> Panel \<Rightarrow> Panel" where
  "deliver (DidUpdate prevProps props) this = componentDidUpdate prevProps props this"
| "deliver (GhostTransitionEnd finishedEventId) this = onGhostTransitionEnd finishedEventId this"

section \<open>Visibility filter\<close>

definition isReply :: "MatrixEvent \<Rightarrow> bool" where
  "isReply e = (case m_relates_to e of None \<Rightarrow> False
                | Some rel \<Rightarrow> m_in_reply_to rel \<noteq> None)"

definition shouldShowEvent :: "Env \<Rightarrow> Panel \<Rightarrow> Props \<Rightarrow> MatrixEvent \<Rightarrow> bool" where
  "shouldShowEvent env this props mxEv =
     (if (case sender mxEv of None \<Rightarrow> False | Some s \<Rightarrow> isUserIgnored env (userId s))
      then False
      else if getType mxEv \<notin> set messageTypes then False
      else if isReply mxEv then False
      else if isRedacted mxEv then False
      else if showHiddenEventsInTimeline this then True
      else if \<not> haveTileForEvent env mxEv then False
      else if highlightedEventId props = Some (getId mxEv) then True
      else \<not> shouldHideEvent env mxEv)"

section \<open>Read marker nodes\<close>

text \<open>
  Render nodes. An event tile carries the props computed here and the tiles of its direct
  sub-events, one list per sub-event as \<^verbatim>\<open>directSubevents.map\<close> returns them. A read
  marker node carries the event id and whether the \<^verbatim>\<open>hr\<close> indicator is inside.
\<close>

record TileProps =
  tile_key :: string
  scrollToken :: "string option"
  tile_level :: nat
  tile_event :: MatrixEvent
  continuation :: bool
  readReceipts :: "Receipt list option"
  tile_last :: "bool option"
  lastSuccessful :: bool
  isSelectedEvent :: bool

datatype node =
    EventTile TileProps "node list list"
  | ReadMarker string bool
  | GhostReadMarker string

definition readMarkerForEvent :: "Panel \<Rightarrow> Props \<Rightarrow> string \<Rightarrow> bool \<Rightarrow> node option" where
  "readMarkerForEvent this props eventId isLastEvent =
     (let visible = \<not> isLastEvent \<and> readMarkerVisible props in
      if readMarkerEventId props = Some eventId then Some (ReadMarker eventId visible)
      else if Some eventId \<in> set (ghostReadMarkers this) then Some (GhostReadMarker eventId)
      else None)"

definition getNextEventInfo ::
  "Env \<Rightarrow> Panel \<Rightarrow> Props \<Rightarrow> MatrixEvent list \<Rightarrow> nat
     \<Rightarrow> MatrixEvent option \<times> MatrixEvent option" where
  "getNextEventInfo env this props arr i =
     (let nextEvent = (if i + 1 < length arr then Some (arr ! (i + 1)) else None);
          nextTile = find (shouldShowEvent env this props) (drop (i + 1) arr)
      in (nextEvent, nextTile))"

section \<open>Receipt aggregation\<close>

text \<open>The body of the \<^verbatim>\<open>forEach\<close> in \<^verbatim>\<open>_getReadReceiptsForEvent\<close>: one raw receipt.\<close>

definition receiptOfRaw :: "Env \<Rightarrow> Room \<Rightarrow> RawReceipt \<Rightarrow> Receipt option" where
  "receiptOfRaw env rm r =
     (case raw_userId r of
        None \<Rightarrow> None
      | Some uid \<Rightarrow>
          if uid = [] \<or> raw_type r \<noteq> ''m.read'' \<or> uid = credentials_userId env then None
          else if isUserIgnored env uid then None
          else Some \<lparr>receipt_userId = uid, roomMember = getMember rm uid,
                      ts = (case raw_data r of None \<Rightarrow> 0 | Some d \<Rightarrow> data_ts d)\<rparr>)"

text \<open>The list that the \<^verbatim>\<open>forEach\<close> builds from the raw receipts of an event.\<close>

definition roomReceipts :: "Env \<Rightarrow> Room \<Rightarrow> MatrixEvent \<Rightarrow> Receipt list" where
  "roomReceipts env rm event =
     List.map_filter (receiptOfRaw env rm) (getReceiptsForEvent rm event)"

text \<open>\<^verbatim>\<open>_getReadReceiptsForEvent\<close>: \<open>None\<close> is the \<^verbatim>\<open>null\<close> returned without a room.\<close>

definition getReadReceiptsForEvent :: "Env \<Rightarrow> Props \<Rightarrow> MatrixEvent \<Rightarrow> Receipt list option" where
  "getReadReceiptsForEvent env props event =
     (case room props of
        None \<Rightarrow> None
      | Some rm \<Rightarrow> Some (roomReceipts env rm event))"

definition recordReceipts :: "string \<Rightarrow> Receipt list \<Rightarrow> ReceiptsByUserId \<Rightarrow> ReceiptsByUserId" where
  "recordReceipts shownId newReceipts receiptsByUserId =
     fold (\<lambda>r. AList.update (receipt_userId r) \<lparr>lastShownEventId = shownId, receipt = r\<rparr>)
       newReceipts receiptsByUserId"

definition bucket :: "ReceiptsByEvent \<Rightarrow> string \<Rightarrow> Receipt list" where
  "bucket receiptsByEvent eventId =
     (case map_of receiptsByEvent eventId of None \<Rightarrow> [] | Some rs \<Rightarrow> rs)"

text \<open>
  The first loop of \<^verbatim>\<open>_getReadReceiptsByShownEvent\<close>, over the events that remain.
  \<open>shown\<close> is \<^verbatim>\<open>lastShownEventId\<close> (\<open>None\<close> while undefined). Iterating the \<^verbatim>\<open>null\<close>
  receipt list with \<^verbatim>\<open>for ... of\<close> throws a TypeError.
\<close>

fun forwardPass ::
  "Env \<Rightarrow> Panel \<Rightarrow> Props \<Rightarrow> MatrixEvent list \<Rightarrow> string option
     \<Rightarrow> ReceiptsByEvent \<Rightarrow> ReceiptsByUserId \<Rightarrow> error + (ReceiptsByEvent \<times> ReceiptsByUserId)" where
  "forwardPass env this props [] shown receiptsByEvent receiptsByUserId =
     Inr (receiptsByEvent, receiptsByUserId)"
| "forwardPass env this props (event # rest) shown receiptsByEvent receiptsByUserId =
     (let shown' = (if shouldShowEvent env this props event then Some (getId event) else shown)
      in case shown' of
           None \<Rightarrow> forwardPass env this props rest shown' receiptsByEvent receiptsByUserId
         | Some shownId \<Rightarrow>
             if shownId = [] then
               forwardPass env this props rest shown' receiptsByEvent receiptsByUserId
             else
               (case getReadReceiptsForEvent env props event of
                  None \<Rightarrow> Inl TypeError
                | Some newReceipts \<Rightarrow>
                    forwardPass env this props rest shown'
                      (AList.update shownId (bucket receiptsByEvent shownId @ newReceipts)
                         receiptsByEvent)
                      (recordReceipts shownId newReceipts receiptsByUserId)))"

text \<open>
  The second loop, for one \<^verbatim>\<open>userId\<close> of the previous \<^verbatim>\<open>_readReceiptsByUserId\<close> with its
  entry (the keys of an object are distinct, so the entry is the one looked up by key).
\<close>

definition fallbackStep ::
  "string \<times> CacheEntry \<Rightarrow> ReceiptsByEvent \<times> ReceiptsByUserId
     \<Rightarrow> ReceiptsByEvent \<times> ReceiptsByUserId" where
  "fallbackStep prev acc =
     (case prev of (uid, entry) \<Rightarrow>
      case acc of (receiptsByEvent, receiptsByUserId) \<Rightarrow>
        if map_of receiptsByUserId uid \<noteq> None then acc
        else
          (AList.update (lastShownEventId entry)
             (bucket receiptsByEvent (lastShownEventId entry) @ [receipt entry]) receiptsByEvent,
           AList.update uid
             \<lparr>lastShownEventId = lastShownEventId entry, receipt = receipt entry\<rparr>
             receiptsByUserId))"

text \<open>The third loop: each bucket sorted by \<^verbatim>\<open>r2.ts - r1.ts\<close> (stable, latest first).\<close>

definition sortBuckets :: "ReceiptsByEvent \<Rightarrow> ReceiptsByEvent" where
  "sortBuckets receiptsByEvent =
     map (\<lambda>(eventId, rs). (eventId, sort_key (\<lambda>r. - ts r) rs)) receiptsByEvent"

text \<open>
  \<^verbatim>\<open>_getReadReceiptsByShownEvent\<close>: the returned map and the instance with the new
  \<^verbatim>\<open>_readReceiptsByUserId\<close>. When it throws the instance is as before.
\<close>

definition getReadReceiptsByShownEvent ::
  "Env \<Rightarrow> Panel \<Rightarrow> Props \<Rightarrow> error + (ReceiptsByEvent \<times> Panel)" where
  "getReadReceiptsByShownEvent env this props =
     (case forwardPass env this props (events props) None [] [] of
        Inl e \<Rightarrow> Inl e
      | Inr fwd \<Rightarrow>
          (case fold fallbackStep (readReceiptsByUserId this) fwd of
             (receiptsByEvent, receiptsByUserId) \<Rightarrow>
               Inr (sortBuckets receiptsByEvent,
                    this\<lparr>readReceiptsByUserId := receiptsByUserId\<rparr>)))"

section \<open>Timeline assembly\<close>

definition isSentState :: "string option \<Rightarrow> bool" where
  "isSentState s = (\<not> truthy s \<or> s = Some ''sent'')"

text \<open>
  The computation of \<^verbatim>\<open>isLastSuccessful\<close> in \<^verbatim>\<open>_getTilesForEvent\<close> (lines 596 to 618).
\<close>

definition isLastSuccessful ::
  "Env \<Rightarrow> Panel \<Rightarrow> Props \<Rightarrow> MatrixEvent \<Rightarrow> MatrixEvent option \<Rightarrow> MatrixEvent option \<Rightarrow> bool" where
  "isLastSuccessful env this props mxEv nextEvent nextEventWithTile =
     (let isSent = isSentState (getAssociatedStatus mxEv);
          hasNextEvent = (case nextEvent of None \<Rightarrow> False
                          | Some n \<Rightarrow> shouldShowEvent env this props n);
          flag1 = (if \<not> hasNextEvent \<and> isSent then True
                   else if hasNextEvent \<and> isSent \<and>
                           (case nextEvent of None \<Rightarrow> False
                            | Some n \<Rightarrow> \<not> isSentState (getAssociatedStatus n)) then True
                   else False);
          flag2 = (if (case nextEventWithTile of None \<Rightarrow> False
                       | Some t \<Rightarrow> Some t \<noteq> nextEvent \<and> isSentState (getAssociatedStatus t))
                   then False else flag1)
      in flag2 \<and> getSender mxEv = getUserId env)"

definition replyTarget :: "MatrixEvent \<Rightarrow> string option" where
  "replyTarget e = (case m_relates_to e of None \<Rightarrow> None
                    | Some rel \<Rightarrow> (case m_in_reply_to rel of None \<Rightarrow> None
                                   | Some r \<Rightarrow> event_id r))"

definition directSubevents :: "Props \<Rightarrow> MatrixEvent \<Rightarrow> MatrixEvent list" where
  "directSubevents props mxEv =
     filter (\<lambda>e. replyTarget e = Some (getId mxEv)) (filter isReply (events props))"

text \<open>
  \<^verbatim>\<open>_getTilesForEvent\<close>. It calls itself on the direct sub-events, and a reply cycle in the
  log makes it recurse without end: the first argument bounds the depth of the recursion
  and \<open>None\<close> is the call that does not return. The unused parameter \<^verbatim>\<open>isGrouped\<close>, the
  unused local date, the editing state and the props passed through unchanged are left out.
\<close>

fun getTilesForEvent ::
  "nat \<Rightarrow> Env \<Rightarrow> Panel \<Rightarrow> Props \<Rightarrow> MatrixEvent option \<Rightarrow> MatrixEvent \<Rightarrow> bool option
     \<Rightarrow> MatrixEvent option \<Rightarrow> MatrixEvent option \<Rightarrow> nat \<Rightarrow> node list option" where
  "getTilesForEvent 0 env this props prevEvent mxEv isLast nextEvent nextEventWithTile level = None"
| "getTilesForEvent (Suc depth) env this props prevEvent mxEv isLast nextEvent nextEventWithTile level =
     (let eventId = getId mxEv;
          tile = \<lparr>tile_key = (case getTxnId mxEv of None \<Rightarrow> eventId
                              | Some txn \<Rightarrow> if txn = [] then eventId else txn),
                  scrollToken = (if truthy (status mxEv) then None else Some eventId),
                  tile_level = level,
                  tile_event = mxEv,
                  continuation = shouldFormContinuation (haveTileForEvent env) prevEvent mxEv,
                  readReceipts = map_of (readReceiptsByEvent this) eventId,
                  tile_last = isLast,
                  lastSuccessful = isLastSuccessful env this props mxEv nextEvent nextEventWithTile,
                  isSelectedEvent = (Some eventId = highlightedEventId props)\<rparr>
      in case those (map (\<lambda>e. getTilesForEvent depth env this props None e None None None
                                (level + 1))
                       (directSubevents props mxEv)) of
           None \<Rightarrow> None
         | Some subtiles \<Rightarrow> Some [EventTile tile subtiles])"

text \<open>
  The backwards loop of \<^verbatim>\<open>_getEventTiles\<close>: \<open>reverseScan env this props n lastShownEvent\<close>
  is the loop from index \<open>n - 1\<close> down; it returns \<^verbatim>\<open>lastShownEvent\<close> and
  \<^verbatim>\<open>lastShownNonLocalEchoIndex\<close>.
\<close>

fun reverseScan ::
  "Env \<Rightarrow> Panel \<Rightarrow> Props \<Rightarrow> nat \<Rightarrow> MatrixEvent option \<Rightarrow> MatrixEvent option \<times> int" where
  "reverseScan env this props 0 lastShownEvent = (lastShownEvent, - 1)"
| "reverseScan env this props (Suc i) lastShownEvent =
     (let mxEv = events props ! i in
      if \<not> shouldShowEvent env this props mxEv then reverseScan env this props i lastShownEvent
      else
        (let lastShownEvent' = (case lastShownEvent of None \<Rightarrow> Some mxEv | Some l \<Rightarrow> Some l)
         in if truthy (status mxEv) then reverseScan env this props i lastShownEvent'
            else (lastShownEvent', int i)))"

text \<open>The forwards loop of \<^verbatim>\<open>_getEventTiles\<close> from index \<open>i\<close>, with the list built so far.\<close>

function eventTilesLoop ::
  "nat \<Rightarrow> Env \<Rightarrow> Panel \<Rightarrow> Props \<Rightarrow> MatrixEvent option \<Rightarrow> int \<Rightarrow> nat \<Rightarrow> MatrixEvent option
     \<Rightarrow> node list \<Rightarrow> node list option" where
  "eventTilesLoop depth env this props lastShownEvent lastShownNonLocalEchoIndex i prevEvent ret =
     (if i < length (events props) then
        (let mxEv = events props ! i;
             eventId = getId mxEv;
             isLast = (Some mxEv = lastShownEvent);
             next = getNextEventInfo env this props (events props) i;
             wantTile = shouldShowEvent env this props mxEv;
             readMarker = readMarkerForEvent this props eventId
                            (int i \<ge> lastShownNonLocalEchoIndex);
             marker = (case readMarker of None \<Rightarrow> [] | Some n \<Rightarrow> [n])
         in if wantTile then
              (case getTilesForEvent depth env this props prevEvent mxEv (Some isLast)
                      (fst next) (snd next) 0 of
                 None \<Rightarrow> None
               | Some tiles \<Rightarrow>
                   eventTilesLoop depth env this props lastShownEvent lastShownNonLocalEchoIndex
                     (Suc i) (Some mxEv) (ret @ tiles @ marker))
            else
              eventTilesLoop depth env this props lastShownEvent lastShownNonLocalEchoIndex
                (Suc i) prevEvent (ret @ marker))
      else Some ret)"
  by pat_completeness auto
termination
  by (relation "measure (\<lambda>(depth, env, this, props, lse, idx, i, prev, ret).
                  length (events props) - i)") auto

declare eventTilesLoop.simps [simp del]

text \<open>
  \<^verbatim>\<open>_getEventTiles\<close>: the render list and the instance after the call. \<open>None\<close> is a call
  that does not return, \<open>Some (Inl TypeError)\<close> one that throws. The dispatch of a pending
  edit at the end writes neither the list nor the instance and is left out.
\<close>

definition getEventTiles ::
  "nat \<Rightarrow> Env \<Rightarrow> Panel \<Rightarrow> Props \<Rightarrow> (error + (node list \<times> Panel)) option" where
  "getEventTiles depth env this props =
     (let scan = reverseScan env this props (length (events props)) None;
          this0 = this\<lparr>readReceiptsByEvent := []\<rparr>;
          receipts = (if showReadReceipts props
                      then (case getReadReceiptsByShownEvent env this0 props of
                              Inl e \<Rightarrow> Inl e
                            | Inr (byEvent, this1) \<Rightarrow>
                                Inr (this1\<lparr>readReceiptsByEvent := byEvent\<rparr>))
                      else Inr this0)
      in case receipts of
           Inl e \<Rightarrow> Some (Inl e)
         | Inr this2 \<Rightarrow>
             (case eventTilesLoop depth env this2 props (fst scan) (snd scan) 0 None [] of
                None \<Rightarrow> None
              | Some ret \<Rightarrow> Some (Inr (ret, this2))))"

text \<open>
  The flag of the tile that the forwards loop of \<^verbatim>\<open>_getEventTiles\<close> builds for the event
  at index \<open>i\<close>, when that event is shown: the look-ahead of \<^verbatim>\<open>_getNextEventInfo\<close> passed to
  the computation of \<^verbatim>\<open>isLastSuccessful\<close>. It is not the flag of a reply's tile, which
  \<^verbatim>\<open>_getTilesForEvent\<close> builds inside the parent's tile with no look-ahead.
\<close>

definition lastSuccessfulAt :: "Env \<Rightarrow> Panel \<Rightarrow> Props \<Rightarrow> nat \<Rightarrow> bool" where
  "lastSuccessfulAt env this props i =
     (let next = getNextEventInfo env this props (events props) i
      in isLastSuccessful env this props (events props ! i) (fst next) (snd next))"

text \<open>
  The nearest shown event at or before index \<open>i\<close> of a log, by its id: the last event that
  the visibility filter accepts among the first \<open>i + 1\<close> events, and \<open>shown\<close> when there
  is none.
\<close>

definition nearestShown ::
  "Env \<Rightarrow> Panel \<Rightarrow> Props \<Rightarrow> string option \<Rightarrow> MatrixEvent list \<Rightarrow> nat \<Rightarrow> string option" where
  "nearestShown env this props shown evs i =
     (case rev (filter (shouldShowEvent env this props) (take (Suc i) evs)) of
        [] \<Rightarrow> shown
      | e # before \<Rightarrow> Some (getId e))"

text \<open>The two results of the backwards loop for the whole log.\<close>

definition lastShownEvent :: "Env \<Rightarrow> Panel \<Rightarrow> Props \<Rightarrow> MatrixEvent option" where
  "lastShownEvent env this props = fst (reverseScan env this props (length (events props)) None)"

definition lastShownNonLocalEchoIndex :: "Env \<Rightarrow> Panel \<Rightarrow> Props \<Rightarrow> int" where
  "lastShownNonLocalEchoIndex env this props =
     snd (reverseScan env this props (length (events props)) None)"

text \<open>The last shown event before index \<open>i\<close>: the tile emitted last before the event at \<open>i\<close>.\<close>

definition prevShownEvent :: "Env \<Rightarrow> Panel \<Rightarrow> Props \<Rightarrow> nat \<Rightarrow> MatrixEvent option" where
  "prevShownEvent env this props i =
     (case rev (filter (shouldShowEvent env this props) (take i (events props))) of
        [] \<Rightarrow> None
      | e # before \<Rightarrow> Some e)"

text \<open>
  What the render list holds for the event at index \<open>i\<close>: the tile of the event when the
  visibility filter accepts it, then the read-marker or ghost node of the event's id when
  there is one. \<open>None\<close> when the tile's recursion does not return.
\<close>

definition blockAt ::
  "nat \<Rightarrow> Env \<Rightarrow> Panel \<Rightarrow> Props \<Rightarrow> MatrixEvent option \<Rightarrow> int \<Rightarrow> nat \<Rightarrow> node list option" where
  "blockAt depth env this props lastShown lastIndex i =
     (let mxEv = events props ! i;
          next = getNextEventInfo env this props (events props) i;
          marker = (case readMarkerForEvent this props (getId mxEv) (lastIndex \<le> int i) of
                      None \<Rightarrow> [] | Some m \<Rightarrow> [m])
      in if shouldShowEvent env this props mxEv
         then map_option (\<lambda>tiles. tiles @ marker)
                (getTilesForEvent depth env this props (prevShownEvent env this props i) mxEv
                   (Some (Some mxEv = lastShown)) (fst next) (snd next) 0)
         else Some marker)"

text \<open>Reading a render list: the event of a tile node, and the marker nodes.\<close>

fun tileEvent :: "node \<Rightarrow> MatrixEvent list" where
  "tileEvent (EventTile tile subtiles) = [tile_event tile]"
| "tileEvent (ReadMarker eventId hr) = []"
| "tileEvent (GhostReadMarker eventId) = []"

fun isMarkerNode :: "node \<Rightarrow> bool" where
  "isMarkerNode (EventTile tile subtiles) = False"
| "isMarkerNode (ReadMarker eventId hr) = True"
| "isMarkerNode (GhostReadMarker eventId) = True"

text \<open>The read-marker or ghost node for the event at index \<open>i\<close>, as a list of at most one node.\<close>

definition markerAt :: "Panel \<Rightarrow> Props \<Rightarrow> int \<Rightarrow> nat \<Rightarrow> node list" where
  "markerAt this props lastIndex i =
     (case readMarkerForEvent this props (getId (events props ! i)) (lastIndex \<le> int i) of
        None \<Rightarrow> [] | Some m \<Rightarrow> [m])"

text \<open>Reading a render list: the event and the last-successful flag of a tile node.\<close>

fun tileFlag :: "node \<Rightarrow> (MatrixEvent \<times> bool) list" where
  "tileFlag (EventTile tile subtiles) = [(tile_event tile, lastSuccessful tile)]"
| "tileFlag (ReadMarker eventId hr) = []"
| "tileFlag (GhostReadMarker eventId) = []"

section \<open>Example values\<close>

text \<open>Concrete collaborators, events and props on which the theorems below are evaluated.\<close>

definition alice :: RoomMember where
  "alice = \<lparr>userId = ''@alice:hs'', name = ''Alice'', getMxcAvatarUrl = None\<rparr>"

definition message :: "nat \<Rightarrow> string \<Rightarrow> int \<Rightarrow> string option \<Rightarrow> MatrixEvent" where
  "message r i t st =
     \<lparr>objRef = r, getId = i, getTxnId = None, sender = Some alice, getSender = ''@alice:hs'',
      getType = ''m.room.message'', getTs = t, isRedacted = False, status = st,
      getAssociatedStatus = st, m_relates_to = None\<rparr>"

definition hiddenEvent :: "nat \<Rightarrow> string \<Rightarrow> int \<Rightarrow> MatrixEvent" where
  "hiddenEvent r i t = (message r i t None)\<lparr>getType := ''m.room.member''\<rparr>"

definition exampleEnv :: Env where
  "exampleEnv =
     \<lparr>isUserIgnored = (\<lambda>u. False), credentials_userId = ''@alice:hs'',
      getUserId = ''@alice:hs'', haveTileForEvent = (\<lambda>e. True),
      shouldHideEvent = (\<lambda>e. False)\<rparr>"

definition readBy :: "string \<Rightarrow> int \<Rightarrow> RawReceipt" where
  "readBy u t = \<lparr>raw_userId = Some u, raw_type = ''m.read'', raw_data = Some \<lparr>data_ts = t\<rparr>\<rparr>"

definition roomWith :: "(string \<times> RawReceipt list) list \<Rightarrow> Room" where
  "roomWith table =
     \<lparr>getReceiptsForEvent = (\<lambda>e. case map_of table (getId e) of None \<Rightarrow> [] | Some rs \<Rightarrow> rs),
      getMember = (\<lambda>u. None)\<rparr>"

definition propsWith :: "MatrixEvent list \<Rightarrow> Room option \<Rightarrow> string option \<Rightarrow> bool \<Rightarrow> Props" where
  "propsWith evs rm marker visible =
     \<lparr>events = evs, highlightedEventId = None, room = rm, readMarkerEventId = marker,
      readMarkerVisible = visible, showReadReceipts = True\<rparr>"

definition exampleLog :: "MatrixEvent list" where
  "exampleLog = [hiddenEvent 10 ''$h0'' 0, message 11 ''$A'' 1 None, hiddenEvent 12 ''$h1'' 2,
                 message 13 ''$B'' 3 None]"

definition exampleRoom :: Room where
  "exampleRoom = roomWith [(''$h0'', [readBy ''@erin:hs'' 5]), (''$A'', [readBy ''@bob:hs'' 7]),
                           (''$h1'', [readBy ''@carol:hs'' 9]), (''$B'', [readBy ''@dave:hs'' 1])]"

definition seenBy :: "string \<Rightarrow> int \<Rightarrow> Receipt" where
  "seenBy u t = \<lparr>receipt_userId = u, roomMember = None, ts = t\<rparr>"

definition firstLog :: "MatrixEvent list" where
  "firstLog = [message 11 ''$A'' 1 None]"

definition secondLog :: "MatrixEvent list" where
  "secondLog = [message 21 ''$B'' 5 None]"

definition roomA :: Room where
  "roomA = roomWith [(''$A'', [readBy ''@bob:hs'' 7])]"

definition panelAfterFirst :: Panel where
  "panelAfterFirst =
     (constructor False)\<lparr>readReceiptsByUserId :=
        [(''@bob:hs'', \<lparr>lastShownEventId = ''$A'', receipt = seenBy ''@bob:hs'' 7\<rparr>)]\<rparr>"

definition reply :: "nat \<Rightarrow> string \<Rightarrow> int \<Rightarrow> string \<Rightarrow> MatrixEvent" where
  "reply r i t target =
     (message r i t None)\<lparr>m_relates_to :=
        Some \<lparr>m_in_reply_to = Some \<lparr>event_id = Some target\<rparr>\<rparr>\<rparr>"

definition markedLog :: "MatrixEvent list" where
  "markedLog = [hiddenEvent 10 ''$h0'' 0, message 11 ''$A'' 1 None]"

definition tileA :: TileProps where
  "tileA =
     \<lparr>tile_key = ''$A'', scrollToken = Some ''$A'', tile_level = 0,
      tile_event = message 11 ''$A'' 1 None, continuation = False,
      readReceipts = Some [seenBy ''@bob:hs'' 7], tile_last = Some True,
      lastSuccessful = True, isSelectedEvent = False\<rparr>"

definition threadLog :: "MatrixEvent list" where
  "threadLog = [message 11 ''$A'' 1 None, reply 12 ''$R'' 2 ''$A'', message 13 ''$B'' 3 None]"

definition threadRank :: "MatrixEvent \<Rightarrow> nat" where
  "threadRank e = (if isReply e then 0 else 1)"

definition threadTileA :: TileProps where
  "threadTileA =
     \<lparr>tile_key = ''$A'', scrollToken = Some ''$A'', tile_level = 0,
      tile_event = message 11 ''$A'' 1 None, continuation = False,
      readReceipts = Some [seenBy ''@bob:hs'' 7], tile_last = Some False,
      lastSuccessful = False, isSelectedEvent = False\<rparr>"

definition threadTileR :: TileProps where
  "threadTileR =
     \<lparr>tile_key = ''$R'', scrollToken = Some ''$R'', tile_level = 1,
      tile_event = reply 12 ''$R'' 2 ''$A'', continuation = False,
      readReceipts = None, tile_last = None,
      lastSuccessful = True, isSelectedEvent = False\<rparr>"

definition threadTileB :: TileProps where
  "threadTileB =
     \<lparr>tile_key = ''$B'', scrollToken = Some ''$B'', tile_level = 0,
      tile_event = message 13 ''$B'' 3 None, continuation = True,
      readReceipts = Some [], tile_last = Some True,
      lastSuccessful = True, isSelectedEvent = False\<rparr>"

definition sendingLog :: "MatrixEvent list" where
  "sendingLog = [message 31 ''$a'' 0 None, message 32 ''$b'' 10 (Some ''sent''),
                 message 33 ''$c'' 20 (Some ''not_sent'')]"

section \<open>Continuation detection: properties\<close>

lemma sfc_Some:
  "shouldFormContinuation haveTile (Some prev) mxEvent =
     (\<exists>ps cs. sender prev = Some ps \<and> sender mxEvent = Some cs \<and>
        \<not> getTs mxEvent - getTs prev > 300000 \<and>
        isRedacted mxEvent = isRedacted prev \<and>
        \<not> (getType mxEvent \<noteq> getType prev \<and>
              (getType mxEvent \<notin> {''m.room.message'', ''m.sticker''} \<or>
               getType prev \<notin> {''m.room.message'', ''m.sticker''})) \<and>
        userId cs = userId ps \<and> name cs = name ps \<and>
        getMxcAvatarUrl cs = getMxcAvatarUrl ps \<and> haveTile prev)"
  unfolding shouldFormContinuation_def CONTINUATION_MAX_INTERVAL_def continuedTypes_def
  by (cases "sender prev"; cases "sender mxEvent"; simp; blast)

lemma sfc_None: "shouldFormContinuation haveTile None mxEvent = False"
  by (simp add: shouldFormContinuation_def)

text \<open>
  C5. \<open>shouldFormContinuation prev mxEvent\<close> is false exactly when one of these holds:
  \<open>prev\<close> is absent; \<open>prev\<close> or \<open>mxEvent\<close> has no sender; the timestamp of \<open>mxEvent\<close> is
  more than 300000 ms after that of \<open>prev\<close>; the redacted flags differ; the types differ
  and one of them is not \<^verbatim>\<open>m.room.message\<close> or \<^verbatim>\<open>m.sticker\<close>; the senders differ in
  user id, display name or avatar reference; \<open>prev\<close> has no renderable tile. In particular
  it is false for every pair more than five minutes apart, whatever the other fields are.
\<close>

theorem shouldFormContinuation_false_iff:
  "(shouldFormContinuation haveTile prevEvent mxEvent = False \<longleftrightarrow>
      (prevEvent = None \<or>
       (\<exists>prev. prevEvent = Some prev \<and>
          (sender prev = None \<or> sender mxEvent = None \<or>
           getTs mxEvent - getTs prev > 300000 \<or>
           isRedacted mxEvent \<noteq> isRedacted prev \<or>
           (getType mxEvent \<noteq> getType prev \<and>
              (getType mxEvent \<notin> {''m.room.message'', ''m.sticker''} \<or>
               getType prev \<notin> {''m.room.message'', ''m.sticker''})) \<or>
           (\<exists>ps cs. sender prev = Some ps \<and> sender mxEvent = Some cs \<and>
              (userId cs \<noteq> userId ps \<or> name cs \<noteq> name ps \<or>
               getMxcAvatarUrl cs \<noteq> getMxcAvatarUrl ps)) \<or>
           \<not> haveTile prev)))) \<and>
   (\<forall>prev. getTs mxEvent - getTs prev > 300000 \<longrightarrow>
      shouldFormContinuation haveTile (Some prev) mxEvent = False)"
proof (intro conjI allI impI)
  show "shouldFormContinuation haveTile prevEvent mxEvent = False \<longleftrightarrow>
      (prevEvent = None \<or>
       (\<exists>prev. prevEvent = Some prev \<and>
          (sender prev = None \<or> sender mxEvent = None \<or>
           getTs mxEvent - getTs prev > 300000 \<or>
           isRedacted mxEvent \<noteq> isRedacted prev \<or>
           (getType mxEvent \<noteq> getType prev \<and>
              (getType mxEvent \<notin> {''m.room.message'', ''m.sticker''} \<or>
               getType prev \<notin> {''m.room.message'', ''m.sticker''})) \<or>
           (\<exists>ps cs. sender prev = Some ps \<and> sender mxEvent = Some cs \<and>
              (userId cs \<noteq> userId ps \<or> name cs \<noteq> name ps \<or>
               getMxcAvatarUrl cs \<noteq> getMxcAvatarUrl ps)) \<or>
           \<not> haveTile prev)))"
  proof (cases prevEvent)
    case None
    then show ?thesis by (simp add: sfc_None)
  next
    case (Some prev)
    show ?thesis
      unfolding Some sfc_Some
      by (cases "sender prev"; cases "sender mxEvent"; simp; blast)
  qed
next
  fix prev :: MatrixEvent
  assume "300000 < getTs mxEvent - getTs prev"
  then show "shouldFormContinuation haveTile (Some prev) mxEvent = False"
    by (simp add: sfc_Some)
qed

text \<open>
  The scenario of the specification: \<open>B\<close> one minute after \<open>A\<close> continues it, \<open>C\<close> 400
  seconds after \<open>A\<close> does not.
\<close>

theorem shouldFormContinuation_false_iff_witness:
  "shouldFormContinuation (\<lambda>e. True) (Some (message 1 ''$A'' 0 None)) (message 2 ''$B'' 60000 None) = True \<and>
   shouldFormContinuation (\<lambda>e. True) (Some (message 1 ''$A'' 0 None)) (message 3 ''$C'' 400000 None) = False \<and>
   getTs (message 3 ''$C'' 400000 None) - getTs (message 1 ''$A'' 0 None) > 300000"
  using shouldFormContinuation_false_iff [of "\<lambda>e. True" "Some (message 1 ''$A'' 0 None)" "message 2 ''$B'' 60000 None"]
        shouldFormContinuation_false_iff [of "\<lambda>e. True" "Some (message 1 ''$A'' 0 None)" "message 3 ''$C'' 400000 None"]
  by (simp add: message_def alice_def)

section \<open>Ghost read markers: properties\<close>

lemma count_list_filter_neq:
  "g \<noteq> a \<Longrightarrow> count_list (filter (\<lambda>x. x \<noteq> a) xs) g = count_list xs g"
  by (induction xs) auto

text \<open>
  C6. Ghost read-marker lifecycle. When the read-marker event id changes while the marker
  was visible before, \<^verbatim>\<open>componentDidUpdate\<close> appends the previous id to the ghost list
  once, and the update that follows the state change (same props before and after) appends
  nothing; with no such move it changes nothing. A completion signal for an id removes
  every entry equal to that id and leaves the other entries as they were, in number and in
  order. An id that is in the ghost list after a signal and was not before was the
  previous id of such a marker move.
\<close>

theorem ghost_lifecycle:
  "(readMarkerVisible prevProps \<and> readMarkerEventId props \<noteq> readMarkerEventId prevProps \<longrightarrow>
      ghostReadMarkers (componentDidUpdate prevProps props this) =
        ghostReadMarkers this @ [readMarkerEventId prevProps] \<and>
      componentDidUpdate props props (componentDidUpdate prevProps props this) =
        componentDidUpdate prevProps props this) \<and>
   (\<not> (readMarkerVisible prevProps \<and> readMarkerEventId props \<noteq> readMarkerEventId prevProps) \<longrightarrow>
      componentDidUpdate prevProps props this = this) \<and>
   finished \<notin> set (ghostReadMarkers (onGhostTransitionEnd finished this)) \<and>
   filter (\<lambda>g. g \<noteq> finished) (ghostReadMarkers (onGhostTransitionEnd finished this)) =
     filter (\<lambda>g. g \<noteq> finished) (ghostReadMarkers this) \<and>
   (\<forall>g. g \<noteq> finished \<longrightarrow>
      count_list (ghostReadMarkers (onGhostTransitionEnd finished this)) g =
        count_list (ghostReadMarkers this) g) \<and>
   (\<forall>g. g \<in> set (ghostReadMarkers (deliver s this)) \<and> g \<notin> set (ghostReadMarkers this) \<longrightarrow>
      (\<exists>pp p. s = DidUpdate pp p \<and> readMarkerVisible pp \<and> readMarkerEventId pp = g \<and>
              readMarkerEventId p \<noteq> g))"
proof (intro conjI allI impI)
  fix g
  assume "g \<noteq> finished"
  then show "count_list (ghostReadMarkers (onGhostTransitionEnd finished this)) g =
        count_list (ghostReadMarkers this) g"
    by (simp add: onGhostTransitionEnd_def count_list_filter_neq)
next
  fix g
  assume a: "g \<in> set (ghostReadMarkers (deliver s this)) \<and> g \<notin> set (ghostReadMarkers this)"
  show "\<exists>pp p. s = DidUpdate pp p \<and> readMarkerVisible pp \<and> readMarkerEventId pp = g \<and>
              readMarkerEventId p \<noteq> g"
  proof (cases s)
    case (DidUpdate pp p)
    with a show ?thesis
      by (auto simp: componentDidUpdate_def split: if_splits)
  next
    case (GhostTransitionEnd f)
    with a show ?thesis
      by (auto simp: onGhostTransitionEnd_def)
  qed
qed (simp_all add: componentDidUpdate_def onGhostTransitionEnd_def)

theorem ghost_lifecycle_witness:
  "ghostReadMarkers (componentDidUpdate (propsWith [] None (Some ''$A'') True)
       (propsWith [] None (Some ''$B'') True)
       ((constructor False)\<lparr>ghostReadMarkers := [Some ''$C'']\<rparr>)) = [Some ''$C'', Some ''$A''] \<and>
   ghostReadMarkers (onGhostTransitionEnd (Some ''$C'')
       (componentDidUpdate (propsWith [] None (Some ''$A'') True)
          (propsWith [] None (Some ''$B'') True)
          ((constructor False)\<lparr>ghostReadMarkers := [Some ''$C'']\<rparr>))) = [Some ''$A'']"
  using ghost_lifecycle [of "propsWith [] None (Some ''$A'') True"
          "propsWith [] None (Some ''$B'') True"
          "(constructor False)\<lparr>ghostReadMarkers := [Some ''$C'']\<rparr>" "Some ''$C''"
          "DidUpdate (propsWith [] None (Some ''$A'') True) (propsWith [] None (Some ''$B'') True)"]
  by (simp add: propsWith_def constructor_def componentDidUpdate_def onGhostTransitionEnd_def)

section \<open>The last-successful flag: the computation\<close>

lemma isLastSuccessful_conv:
  "isLastSuccessful env this props mxEv nextEvent nextTile \<longleftrightarrow>
     getSender mxEv = getUserId env \<and> isSentState (getAssociatedStatus mxEv) \<and>
     (\<forall>n. nextEvent = Some n \<and> shouldShowEvent env this props n \<longrightarrow>
          \<not> isSentState (getAssociatedStatus n)) \<and>
     (\<forall>t. nextTile = Some t \<and> Some t \<noteq> nextEvent \<longrightarrow> \<not> isSentState (getAssociatedStatus t))"
  unfolding isLastSuccessful_def Let_def
  by (cases nextEvent; cases nextTile; simp; blast)

lemma find_drop_shown:
  assumes "Suc i < length arr" and "P (arr ! Suc i)"
  shows "find P (drop (Suc i) arr) = Some (arr ! Suc i)"
proof -
  from assms(1) have "drop (Suc i) arr = arr ! Suc i # drop (Suc (Suc i)) arr"
    by (simp add: Cons_nth_drop_Suc)
  with assms(2) show ?thesis by simp
qed

lemma find_Some_sat: "find P xs = Some x \<Longrightarrow> P x"
  by (induction xs) (auto split: if_splits)

lemma lastSuccessfulAt_conv:
  "lastSuccessfulAt env this props i \<longleftrightarrow>
     getSender (events props ! i) = getUserId env \<and>
     isSentState (getAssociatedStatus (events props ! i)) \<and>
     (\<forall>t. find (shouldShowEvent env this props) (drop (Suc i) (events props)) = Some t \<longrightarrow>
          \<not> isSentState (getAssociatedStatus t))"
proof (cases "Suc i < length (events props)")
  case False
  then show ?thesis
    by (simp add: lastSuccessfulAt_def getNextEventInfo_def isLastSuccessful_conv)
next
  case True
  show ?thesis
  proof (cases "shouldShowEvent env this props (events props ! Suc i)")
    case shown: True
    from find_drop_shown [of i "events props" "shouldShowEvent env this props", OF True shown]
    show ?thesis using True shown
      by (simp add: lastSuccessfulAt_def getNextEventInfo_def isLastSuccessful_conv)
  next
    case hidden: False
    have "\<And>t. find (shouldShowEvent env this props) (drop (Suc i) (events props)) = Some t
             \<Longrightarrow> t \<noteq> events props ! Suc i"
      using hidden find_Some_sat by fastforce
    then show ?thesis using True hidden
      by (auto simp: lastSuccessfulAt_def getNextEventInfo_def isLastSuccessful_conv)
  qed
qed

section \<open>Receipt aggregation: properties\<close>

lemma shouldShowEvent_cache [simp]:
  "shouldShowEvent env (this\<lparr>readReceiptsByUserId := c\<rparr>) props = shouldShowEvent env this props"
  "shouldShowEvent env (this\<lparr>readReceiptsByEvent := b\<rparr>) props = shouldShowEvent env this props"
  by (simp_all add: shouldShowEvent_def fun_eq_iff)

lemma forwardPass_no_room_throws:
  assumes "room props = None"
    and "\<exists>e \<in> set evs. shouldShowEvent env this props e \<and> getId e \<noteq> []"
  shows "forwardPass env this props evs shown byEvent byUser = Inl TypeError"
  using assms(2)
proof (induction evs arbitrary: shown byEvent byUser)
  case Nil
  then show ?case by simp
next
  case (Cons e rest)
  show ?case
  proof (cases "shouldShowEvent env this props e \<and> getId e \<noteq> []")
    case True
    then show ?thesis
      by (simp add: getReadReceiptsForEvent_def assms(1))
  next
    case False
    with Cons.prems have "\<exists>e \<in> set rest. shouldShowEvent env this props e \<and> getId e \<noteq> []"
      by auto
    then have "\<And>s. forwardPass env this props rest s byEvent byUser = Inl TypeError"
      by (rule Cons.IH)
    then show ?thesis
      by (simp add: getReadReceiptsForEvent_def assms(1) Let_def split: option.splits)
  qed
qed

lemma forwardPass_nothing_shown:
  assumes "\<not> (\<exists>e \<in> set evs. shouldShowEvent env this props e \<and> getId e \<noteq> [])"
    and "\<not> truthy shown"
  shows "forwardPass env this props evs shown byEvent byUser = Inr (byEvent, byUser)"
  using assms
proof (induction evs arbitrary: shown)
  case Nil
  then show ?case by simp
next
  case (Cons e rest)
  define s where "s = (if shouldShowEvent env this props e then Some (getId e) else shown)"
  from Cons.prems have f: "\<not> truthy s"
    by (auto simp: truthy_def s_def)
  from Cons.prems have "\<not> (\<exists>e \<in> set rest. shouldShowEvent env this props e \<and> getId e \<noteq> [])"
    by simp
  from Cons.IH [OF this f]
  have ih: "forwardPass env this props rest s byEvent byUser = Inr (byEvent, byUser)" .
  have "forwardPass env this props (e # rest) shown byEvent byUser =
          forwardPass env this props rest s byEvent byUser"
    using f by (cases s) (simp_all add: s_def [symmetric] truthy_def)
  with ih show ?case by simp
qed

lemma map_upt_Suc_shift: "map f [0..<Suc n] = f 0 # map (\<lambda>i. f (Suc i)) [0..<n]"
  by (induction n) simp_all

lemma bucket_update:
  "bucket (AList.update k v al) k' = (if k' = k then v else bucket al k')"
  by (simp add: bucket_def update_conv')

lemma bucket_Nil [simp]: "bucket [] k = []"
  by (simp add: bucket_def)

lemma nearestShown_0:
  "nearestShown env this props shown (e # rest) 0 =
     (if shouldShowEvent env this props e then Some (getId e) else shown)"
  by (simp add: nearestShown_def)

lemma nearestShown_Suc:
  "nearestShown env this props shown (e # rest) (Suc i) =
     nearestShown env this props
       (if shouldShowEvent env this props e then Some (getId e) else shown) rest i"
  by (cases "rev (filter (shouldShowEvent env this props) (take (Suc i) rest))")
     (simp_all add: nearestShown_def)

lemma forwardPass_buckets:
  assumes rm: "room props = Some rm"
    and ids: "\<forall>e \<in> set evs. shouldShowEvent env this props e \<longrightarrow> getId e \<noteq> []"
    and sh: "shown \<noteq> Some []"
  shows "\<exists>byEvent' byUser'.
     forwardPass env this props evs shown byEvent byUser = Inr (byEvent', byUser') \<and>
     (\<forall>k. bucket byEvent' k = bucket byEvent k @
        concat (map (\<lambda>i. if nearestShown env this props shown evs i = Some k
                         then roomReceipts env rm (evs ! i) else []) [0..<length evs])) \<and>
     fst ` set byEvent' = fst ` set byEvent \<union>
        {k. \<exists>i < length evs. nearestShown env this props shown evs i = Some k}"
  using ids sh
proof (induction evs arbitrary: shown byEvent byUser)
  case Nil
  then show ?case by simp
next
  case (Cons e rest)
  define s where "s = (if shouldShowEvent env this props e then Some (getId e) else shown)"
  from Cons.prems have s_ok: "s \<noteq> Some []"
    by (auto simp: s_def)
  from Cons.prems have ids': "\<forall>e \<in> set rest. shouldShowEvent env this props e \<longrightarrow> getId e \<noteq> []"
    by simp
  have n0: "nearestShown env this props shown (e # rest) 0 = s"
    by (simp add: nearestShown_0 s_def)
  have nS: "\<And>i. nearestShown env this props shown (e # rest) (Suc i) =
               nearestShown env this props s rest i"
    by (simp add: nearestShown_Suc s_def)
  have dom_split: "{k. \<exists>i < length (e # rest). nearestShown env this props shown (e # rest) i = Some k}
      = {k. s = Some k} \<union> {k. \<exists>i < length rest. nearestShown env this props s rest i = Some k}"
    (is "?L = ?R")
  proof (intro set_eqI iffI)
    fix k assume "k \<in> ?L"
    then obtain i where i: "i < length (e # rest)"
      "nearestShown env this props shown (e # rest) i = Some k" by blast
    then show "k \<in> ?R"
      by (cases i) (auto simp: n0 nS)
  next
    fix k assume "k \<in> ?R"
    then consider "s = Some k"
      | i where "i < length rest" "nearestShown env this props s rest i = Some k" by blast
    then show "k \<in> ?L"
    proof cases
      case 1
      then have "nearestShown env this props shown (e # rest) 0 = Some k" by (simp add: n0)
      then show ?thesis by fastforce
    next
      case 2
      then have "Suc i < length (e # rest)"
        "nearestShown env this props shown (e # rest) (Suc i) = Some k" by (simp_all add: nS)
      then show ?thesis by blast
    qed
  qed
  show ?case
  proof (cases s)
    case None
    have step: "forwardPass env this props (e # rest) shown byEvent byUser =
                  forwardPass env this props rest s byEvent byUser"
      by (simp add: s_def [symmetric] None)
    from Cons.IH [OF ids' s_ok, of byEvent byUser] obtain be bu where
      r: "forwardPass env this props rest s byEvent byUser = Inr (be, bu)"
      and b: "\<And>k. bucket be k = bucket byEvent k @
        concat (map (\<lambda>i. if nearestShown env this props s rest i = Some k
                         then roomReceipts env rm (rest ! i) else []) [0..<length rest])"
      and d: "fst ` set be = fst ` set byEvent \<union>
        {k. \<exists>i < length rest. nearestShown env this props s rest i = Some k}"
      by blast
    show ?thesis
      unfolding step r dom_split
      by (intro exI conjI allI, rule refl)
         (simp_all add: b d map_upt_Suc_shift n0 nS None del: upt_Suc cong: if_cong)
  next
    case (Some sid)
    with s_ok have sid: "sid \<noteq> []" by simp
    define be1 where "be1 = AList.update sid (bucket byEvent sid @ roomReceipts env rm e) byEvent"
    define bu1 where "bu1 = recordReceipts sid (roomReceipts env rm e) byUser"
    have step: "forwardPass env this props (e # rest) shown byEvent byUser =
                  forwardPass env this props rest s be1 bu1"
      by (simp add: s_def [symmetric] Some sid getReadReceiptsForEvent_def rm be1_def bu1_def)
    from Cons.IH [OF ids' s_ok, of be1 bu1] obtain be bu where
      r: "forwardPass env this props rest s be1 bu1 = Inr (be, bu)"
      and b: "\<And>k. bucket be k = bucket be1 k @
        concat (map (\<lambda>i. if nearestShown env this props s rest i = Some k
                         then roomReceipts env rm (rest ! i) else []) [0..<length rest])"
      and d: "fst ` set be = fst ` set be1 \<union>
        {k. \<exists>i < length rest. nearestShown env this props s rest i = Some k}"
      by blast
    have d1: "fst ` set be1 = {sid} \<union> fst ` set byEvent"
      by (simp add: be1_def dom_update)
    have b1: "\<And>k. bucket be1 k =
        bucket byEvent k @ (if s = Some k then roomReceipts env rm e else [])"
      by (auto simp: be1_def bucket_update Some)
    have d': "fst ` set be = fst ` set byEvent \<union> ({k. s = Some k} \<union>
        {k. \<exists>i < length rest. nearestShown env this props s rest i = Some k})"
      unfolding d d1 Some by auto
    show ?thesis
      unfolding step r dom_split
      by (intro exI conjI allI, rule refl, simp_all only: d')
         (simp add: b b1 map_upt_Suc_shift n0 nS del: upt_Suc cong: if_cong)
  qed
qed

lemma forwardPass_hidden_prefix:
  assumes "\<forall>e \<in> set hidden. \<not> shouldShowEvent env this props e"
  shows "forwardPass env this props (hidden @ evs) None byEvent byUser =
           forwardPass env this props evs None byEvent byUser"
  using assms by (induction hidden) simp_all

text \<open>
  C3. With a room, and event ids non-empty, the forward pass over the whole log returns,
  and the bucket of every id \<open>k\<close> is the concatenation, in log order, of the receipts of
  exactly the events, shown or hidden, whose nearest shown event at or before them has id
  \<open>k\<close>; the keys are the ids that are such a nearest shown event. An event that no shown
  event precedes adds to no bucket: hidden events in front of the log leave the result of
  the pass as it is without them.
\<close>

theorem receipts_fold_forward:
  assumes "room props = Some rm"
    and "\<forall>e \<in> set (events props). shouldShowEvent env this props e \<longrightarrow> getId e \<noteq> []"
  shows "\<exists>byEvent byUser.
     forwardPass env this props (events props) None [] [] = Inr (byEvent, byUser) \<and>
     (\<forall>k. bucket byEvent k =
        concat (map (\<lambda>i. if nearestShown env this props None (events props) i = Some k
                         then roomReceipts env rm (events props ! i) else [])
                  [0..<length (events props)])) \<and>
     (\<forall>k. k \<in> fst ` set byEvent \<longleftrightarrow>
        (\<exists>i < length (events props). nearestShown env this props None (events props) i = Some k)) \<and>
     (\<forall>hidden. (\<forall>e \<in> set hidden. \<not> shouldShowEvent env this props e) \<longrightarrow>
        forwardPass env this props (hidden @ events props) None [] [] = Inr (byEvent, byUser))"
proof -
  from forwardPass_buckets [OF assms, of None "[]" "[]"] obtain byEvent byUser where
    r: "forwardPass env this props (events props) None [] [] = Inr (byEvent, byUser)"
    and b: "\<And>k. bucket byEvent k = bucket [] k @
        concat (map (\<lambda>i. if nearestShown env this props None (events props) i = Some k
                         then roomReceipts env rm (events props ! i) else [])
                  [0..<length (events props)])"
    and d: "fst ` set byEvent = fst ` set ([] :: ReceiptsByEvent) \<union>
        {k. \<exists>i < length (events props). nearestShown env this props None (events props) i = Some k}"
    by blast
  have "\<forall>k. bucket byEvent k =
        concat (map (\<lambda>i. if nearestShown env this props None (events props) i = Some k
                         then roomReceipts env rm (events props ! i) else [])
                  [0..<length (events props)])"
    by (simp add: b)
  moreover have "\<forall>k. k \<in> fst ` set byEvent \<longleftrightarrow>
        (\<exists>i < length (events props). nearestShown env this props None (events props) i = Some k)"
    unfolding d by simp
  moreover have "\<forall>hidden. (\<forall>e \<in> set hidden. \<not> shouldShowEvent env this props e) \<longrightarrow>
        forwardPass env this props (hidden @ events props) None [] [] = Inr (byEvent, byUser)"
    by (simp add: forwardPass_hidden_prefix r)
  ultimately show ?thesis using r by blast
qed



lemma exampleLog_shown:
  "shouldShowEvent exampleEnv (constructor False) (propsWith evs rm mk vis) (message r i t st)"
  "\<not> shouldShowEvent exampleEnv (constructor False) (propsWith evs rm mk vis) (hiddenEvent r i t)"
  by (simp_all add: shouldShowEvent_def exampleEnv_def constructor_def propsWith_def message_def
        hiddenEvent_def alice_def messageTypes_def isReply_def)

lemma exampleRoom_receipts:
  "roomReceipts exampleEnv exampleRoom (hiddenEvent 10 ''$h0'' 0) = [seenBy ''@erin:hs'' 5]"
  "roomReceipts exampleEnv exampleRoom (message 11 ''$A'' 1 None) = [seenBy ''@bob:hs'' 7]"
  "roomReceipts exampleEnv exampleRoom (hiddenEvent 12 ''$h1'' 2) = [seenBy ''@carol:hs'' 9]"
  "roomReceipts exampleEnv exampleRoom (message 13 ''$B'' 3 None) = [seenBy ''@dave:hs'' 1]"
  by (simp_all add: roomReceipts_def exampleRoom_def roomWith_def message_def hiddenEvent_def
        List.map_filter_def receiptOfRaw_def readBy_def exampleEnv_def seenBy_def)

theorem receipts_fold_forward_witness:
  "room (propsWith exampleLog (Some exampleRoom) None False) = Some exampleRoom \<and>
   (\<exists>byEvent byUser.
      forwardPass exampleEnv (constructor False) (propsWith exampleLog (Some exampleRoom) None False)
        exampleLog None [] [] = Inr (byEvent, byUser) \<and>
      bucket byEvent ''$A'' = [seenBy ''@bob:hs'' 7, seenBy ''@carol:hs'' 9] \<and>
      bucket byEvent ''$B'' = [seenBy ''@dave:hs'' 1] \<and>
      ''$h0'' \<notin> fst ` set byEvent)"
proof -
  let ?P = "propsWith exampleLog (Some exampleRoom) None False"
  have r: "room ?P = Some exampleRoom" and e: "events ?P = exampleLog"
    by (simp_all add: propsWith_def)
  have ids: "\<forall>e \<in> set (events ?P).
      shouldShowEvent exampleEnv (constructor False) ?P e \<longrightarrow> getId e \<noteq> []"
    unfolding e by (simp add: exampleLog_def message_def hiddenEvent_def)
  have n: "nearestShown exampleEnv (constructor False) ?P None exampleLog 0 = None"
    "nearestShown exampleEnv (constructor False) ?P None exampleLog (Suc 0) = Some ''$A''"
    "nearestShown exampleEnv (constructor False) ?P None exampleLog 2 = Some ''$A''"
    "nearestShown exampleEnv (constructor False) ?P None exampleLog 3 = Some ''$B''"
    by (simp_all add: nearestShown_def exampleLog_def exampleLog_shown) (simp_all add: message_def)
  have u: "[0..<length exampleLog] = [0, 1, 2, 3]"
    by (simp add: exampleLog_def upt_rec)
  have l: "\<And>i. i < length exampleLog \<Longrightarrow> i \<in> {0, 1, 2, 3}"
    by (auto simp: exampleLog_def)
  from receipts_fold_forward [OF r ids]
  obtain byEvent byUser where
    f: "forwardPass exampleEnv (constructor False) ?P (events ?P) None [] [] = Inr (byEvent, byUser)"
    and b: "\<And>k. bucket byEvent k =
        concat (map (\<lambda>i. if nearestShown exampleEnv (constructor False) ?P None (events ?P) i = Some k
                         then roomReceipts exampleEnv exampleRoom (events ?P ! i) else [])
                  [0..<length (events ?P)])"
    and d: "\<And>k. k \<in> fst ` set byEvent \<longleftrightarrow>
        (\<exists>i < length (events ?P).
            nearestShown exampleEnv (constructor False) ?P None (events ?P) i = Some k)"
    by blast
  have "bucket byEvent ''$A'' = [seenBy ''@bob:hs'' 7, seenBy ''@carol:hs'' 9]"
    unfolding b e u by (simp add: n) (simp add: exampleLog_def exampleRoom_receipts)
  moreover have "bucket byEvent ''$B'' = [seenBy ''@dave:hs'' 1]"
    unfolding b e u by (simp add: n) (simp add: exampleLog_def exampleRoom_receipts)
  moreover have "''$h0'' \<notin> fst ` set byEvent"
    unfolding d e using l n by fastforce
  ultimately show ?thesis using f r unfolding e by blast
qed

lemma entry_eta [simp]:
  "\<lparr>lastShownEventId = lastShownEventId (c :: CacheEntry), receipt = receipt c\<rparr> = c"
  by simp

lemma map_of_present: "map_of al k \<noteq> None \<longleftrightarrow> k \<in> fst ` set al"
  by (simp add: map_of_eq_None_iff)

lemma update_absent: "k \<notin> fst ` set al \<Longrightarrow> AList.update k v al = al @ [(k, v)]"
  by (induction al) auto

lemma fallbackStep_present:
  "map_of byUser u \<noteq> None \<Longrightarrow> fallbackStep (u, c) (byEvent, byUser) = (byEvent, byUser)"
  by (simp add: fallbackStep_def)

lemma fallbackStep_absent:
  "map_of byUser u = None \<Longrightarrow>
     fallbackStep (u, c) (byEvent, byUser) =
       (AList.update (lastShownEventId c) (bucket byEvent (lastShownEventId c) @ [receipt c]) byEvent,
        AList.update u c byUser)"
  by (simp add: fallbackStep_def)

lemma fallback_user_keys:
  "fst ` set (snd (fold fallbackStep ps acc)) = fst ` set (snd acc) \<union> fst ` set ps"
proof (induction ps arbitrary: acc)
  case Nil
  then show ?case by simp
next
  case (Cons p ps)
  obtain u c where p: "p = (u, c)" by (cases p)
  obtain byEvent byUser where acc: "acc = (byEvent, byUser)" by (cases acc)
  show ?case
  proof (cases "map_of byUser u")
    case None
    then show ?thesis
      by (simp add: Cons.IH p acc fallbackStep_absent dom_update)
  next
    case (Some a)
    then have "u \<in> fst ` set byUser" using map_of_present [of byUser u] by simp
    with Some show ?thesis
      by (auto simp: Cons.IH p acc fallbackStep_present)
  qed
qed

lemma fallback_preserves_user:
  "map_of (snd acc) u = Some c \<Longrightarrow> map_of (snd (fold fallbackStep ps acc)) u = Some c"
proof (induction ps arbitrary: acc)
  case Nil
  then show ?case by simp
next
  case (Cons p ps)
  obtain u' c' where p: "p = (u', c')" by (cases p)
  obtain byEvent byUser where acc: "acc = (byEvent, byUser)" by (cases acc)
  have "map_of (snd (fallbackStep p acc)) u = Some c"
  proof (cases "map_of byUser u'")
    case None
    with Cons.prems have "u' \<noteq> u" by (auto simp: acc)
    with Cons.prems None show ?thesis
      by (simp add: p acc fallbackStep_absent update_conv')
  next
    case (Some a)
    with Cons.prems show ?thesis by (simp add: p acc fallbackStep_present)
  qed
  then show ?case by (simp add: Cons.IH)
qed

lemma fallback_bucket_mono:
  "r \<in> set (bucket (fst acc) k) \<Longrightarrow> r \<in> set (bucket (fst (fold fallbackStep ps acc)) k)"
proof (induction ps arbitrary: acc)
  case Nil
  then show ?case by simp
next
  case (Cons p ps)
  obtain u' c' where p: "p = (u', c')" by (cases p)
  obtain byEvent byUser where acc: "acc = (byEvent, byUser)" by (cases acc)
  have "r \<in> set (bucket (fst (fallbackStep p acc)) k)"
    using Cons.prems
    by (cases "map_of byUser u'")
       (auto simp: p acc fallbackStep_absent fallbackStep_present bucket_update)
  then show ?case by (simp add: Cons.IH)
qed

lemma fallback_carries:
  assumes "map_of ps u = Some c" and "map_of (snd acc) u = None"
  shows "map_of (snd (fold fallbackStep ps acc)) u = Some c \<and>
         receipt c \<in> set (bucket (fst (fold fallbackStep ps acc)) (lastShownEventId c))"
  using assms
proof (induction ps arbitrary: acc)
  case Nil
  then show ?case by simp
next
  case (Cons p ps)
  obtain u' c' where p: "p = (u', c')" by (cases p)
  obtain byEvent byUser where acc: "acc = (byEvent, byUser)" by (cases acc)
  show ?case
  proof (cases "u' = u")
    case True
    with Cons.prems have c: "c' = c" and n: "map_of byUser u = None"
      by (simp_all add: p acc)
    define acc1 where "acc1 = fallbackStep p acc"
    have "map_of (snd acc1) u = Some c"
      and "receipt c \<in> set (bucket (fst acc1) (lastShownEventId c))"
      by (simp_all add: acc1_def p acc True c fallbackStep_absent [OF n] update_conv' bucket_update)
    then show ?thesis
      using fallback_preserves_user [of acc1 u c ps]
            fallback_bucket_mono [of "receipt c" acc1 "lastShownEventId c" ps]
      by (simp add: acc1_def)
  next
    case False
    with Cons.prems have m: "map_of ps u = Some c" by (simp add: p)
    have "map_of (snd (fallbackStep p acc)) u = None"
      using Cons.prems(2) False
      by (cases "map_of byUser u'")
         (simp_all add: p acc fallbackStep_absent fallbackStep_present update_conv')
    from Cons.IH [OF m this] show ?thesis by simp
  qed
qed

lemma fallback_event_keys:
  assumes "k \<in> fst ` set (fst (fold fallbackStep ps acc))"
  shows "k \<in> fst ` set (fst acc) \<or>
         (\<exists>u c. (u, c) \<in> set ps \<and> lastShownEventId c = k \<and> map_of (snd acc) u = None \<and>
                 map_of (snd (fold fallbackStep ps acc)) u = Some c)"
  using assms
proof (induction ps arbitrary: acc)
  case Nil
  then show ?case by simp
next
  case (Cons p ps)
  obtain u' c' where p: "p = (u', c')" by (cases p)
  obtain byEvent byUser where acc: "acc = (byEvent, byUser)" by (cases acc)
  define acc1 where "acc1 = fallbackStep p acc"
  from Cons.prems have "k \<in> fst ` set (fst (fold fallbackStep ps acc1))"
    by (simp add: acc1_def)
  from Cons.IH [OF this] consider
    (old) "k \<in> fst ` set (fst acc1)"
    | (new) u c where "(u, c) \<in> set ps" "lastShownEventId c = k" "map_of (snd acc1) u = None"
        "map_of (snd (fold fallbackStep ps acc1)) u = Some c"
    by blast
  then show ?case
  proof cases
    case old
    show ?thesis
    proof (cases "map_of byUser u'")
      case None
      from old have "k = lastShownEventId c' \<or> k \<in> fst ` set byEvent"
        by (simp add: acc1_def p acc fallbackStep_absent [OF None] dom_update)
      then show ?thesis
      proof
        assume k: "k = lastShownEventId c'"
        have "map_of (snd acc1) u' = Some c'"
          by (simp add: acc1_def p acc fallbackStep_absent [OF None] update_conv')
        from fallback_preserves_user [OF this, of ps]
        have "map_of (snd (fold fallbackStep (p # ps) acc)) u' = Some c'"
          by (simp add: acc1_def)
        with k None show ?thesis
          unfolding p acc by (intro disjI2 exI [of _ u'] exI [of _ c']) simp
      next
        assume "k \<in> fst ` set byEvent"
        then show ?thesis by (simp add: acc)
      qed
    next
      case (Some a)
      with old show ?thesis
        by (simp add: acc1_def p acc fallbackStep_present)
    qed
  next
    case new
    have "map_of (snd acc) u = None"
    proof (cases "map_of byUser u'")
      case None
      with new(3) show ?thesis
        by (cases "u = u'")
           (simp_all add: acc1_def p acc fallbackStep_absent [OF None] update_conv')
    next
      case (Some a)
      with new(3) show ?thesis by (simp add: acc1_def p acc fallbackStep_present)
    qed
    with new show ?thesis
      by (intro disjI2 exI [of _ u] exI [of _ c]) (simp add: acc1_def)
  qed
qed

lemma recordReceipts_keys:
  "fst ` set (recordReceipts sid nr byUser) = fst ` set byUser \<union> receipt_userId ` set nr"
  unfolding recordReceipts_def
  by (induction nr arbitrary: byUser) (auto simp: dom_update)

lemma forwardPass_Cons_cases:
  assumes "forwardPass env this props (e # rest) shown byEvent byUser = Inr r"
  obtains (skip) s where
      "s = (if shouldShowEvent env this props e then Some (getId e) else shown)"
      "\<not> truthy s" "forwardPass env this props rest s byEvent byUser = Inr r"
  | (add) sid nr where
      "(if shouldShowEvent env this props e then Some (getId e) else shown) = Some sid"
      "sid \<noteq> []" "getReadReceiptsForEvent env props e = Some nr"
      "forwardPass env this props rest (Some sid)
         (AList.update sid (bucket byEvent sid @ nr) byEvent)
         (recordReceipts sid nr byUser) = Inr r"
proof -
  define s where "s = (if shouldShowEvent env this props e then Some (getId e) else shown)"
  show thesis
  proof (cases s)
    case None
    with assms have "forwardPass env this props rest s byEvent byUser = Inr r"
      by (simp add: s_def [symmetric])
    with None show ?thesis by (intro skip [of s]) (simp_all add: s_def truthy_def)
  next
    case (Some sid)
    show ?thesis
    proof (cases "sid = []")
      case True
      with assms Some have "forwardPass env this props rest s byEvent byUser = Inr r"
        by (simp add: s_def [symmetric])
      with Some True show ?thesis by (intro skip [of s]) (simp_all add: s_def truthy_def)
    next
      case False
      with assms Some obtain nr where "getReadReceiptsForEvent env props e = Some nr"
        "forwardPass env this props rest (Some sid)
           (AList.update sid (bucket byEvent sid @ nr) byEvent)
           (recordReceipts sid nr byUser) = Inr r"
        by (cases "getReadReceiptsForEvent env props e") (simp_all add: s_def [symmetric])
      with Some False show ?thesis by (intro add [of sid nr]) (simp_all add: s_def)
    qed
  qed
qed

lemma forwardPass_user_keys:
  assumes "forwardPass env this props evs shown byEvent byUser = Inr (byEvent', byUser')"
    and "u \<in> fst ` set byUser'"
  shows "u \<in> fst ` set byUser \<or>
         (\<exists>e \<in> set evs. \<exists>rs. getReadReceiptsForEvent env props e = Some rs \<and>
                               u \<in> receipt_userId ` set rs)"
  using assms
proof (induction evs arbitrary: shown byEvent byUser)
  case Nil
  then show ?case by simp
next
  case (Cons e rest)
  from Cons.prems(1) show ?case
  proof (cases rule: forwardPass_Cons_cases)
    case (skip s)
    from Cons.IH [OF skip(3) Cons.prems(2)] show ?thesis by auto
  next
    case (add sid nr)
    from Cons.IH [OF add(4) Cons.prems(2)] add(3) show ?thesis
      by (auto simp: recordReceipts_keys)
  qed
qed

lemma forwardPass_event_keys:
  assumes "forwardPass env this props evs shown byEvent byUser = Inr (byEvent', byUser')"
    and "k \<in> fst ` set byEvent'"
  shows "k \<in> fst ` set byEvent \<or> shown = Some k \<or>
         (\<exists>e \<in> set evs. shouldShowEvent env this props e \<and> getId e = k)"
  using assms
proof (induction evs arbitrary: shown byEvent byUser)
  case Nil
  then show ?case by simp
next
  case (Cons e rest)
  from Cons.prems(1) show ?case
  proof (cases rule: forwardPass_Cons_cases)
    case (skip s)
    from Cons.IH [OF skip(3) Cons.prems(2)] skip(1) show ?thesis
      by (auto split: if_splits)
  next
    case (add sid nr)
    from Cons.IH [OF add(4) Cons.prems(2)] add(1) show ?thesis
      by (auto simp: dom_update split: if_splits)
  qed
qed

lemma forwardPass_cache_irrelevant:
  "forwardPass env (this\<lparr>readReceiptsByUserId := c\<rparr>) props evs shown byEvent byUser =
     forwardPass env this props evs shown byEvent byUser"
  by (induction evs arbitrary: shown byEvent byUser)
     (simp_all add: Let_def cong: option.case_cong if_cong)

lemma forwardPass_returns:
  assumes "room props = Some rm"
  shows "\<exists>r. forwardPass env this props evs shown byEvent byUser = Inr r"
proof (induction evs arbitrary: shown byEvent byUser)
  case Nil
  then show ?case by simp
next
  case (Cons e rest)
  then show ?case
    by (simp add: getReadReceiptsForEvent_def assms Let_def split: option.splits)
qed

lemma sortBuckets_keys: "fst ` set (sortBuckets byEvent) = fst ` set byEvent"
  by (force simp: sortBuckets_def)

lemma bucket_sortBuckets:
  "bucket (sortBuckets byEvent) k = sort_key (\<lambda>r. - ts r) (bucket byEvent k)"
  by (simp add: sortBuckets_def bucket_def map_of_map split: option.splits)

lemma getReadReceiptsByShownEvent_Inr:
  assumes "getReadReceiptsByShownEvent env this props = Inr (byEvent, this')"
  obtains fe fu be bu where
    "forwardPass env this props (events props) None [] [] = Inr (fe, fu)"
    "fold fallbackStep (readReceiptsByUserId this) (fe, fu) = (be, bu)"
    "byEvent = sortBuckets be" "this' = this\<lparr>readReceiptsByUserId := bu\<rparr>"
  using assms unfolding getReadReceiptsByShownEvent_def
  by (auto split: sum.splits prod.splits)

lemma getReadReceiptsByShownEvent_returns:
  assumes "room props \<noteq> None"
  shows "\<exists>r. getReadReceiptsByShownEvent env this props = Inr r"
proof -
  from assms obtain rm where "room props = Some rm" by blast
  from forwardPass_returns [OF this, of env this "events props" None "[]" "[]"]
  show ?thesis
    by (auto simp: getReadReceiptsByShownEvent_def split: prod.splits)
qed

lemma fallback_skips_present:
  assumes "\<forall>p \<in> set ps. map_of byUser (fst p) \<noteq> None"
  shows "fold fallbackStep ps (byEvent, byUser) = (byEvent, byUser)"
  using assms
proof (induction ps)
  case Nil
  then show ?case by simp
next
  case (Cons p ps)
  obtain u c where p: "p = (u, c)" by (cases p)
  from Cons show ?case by (simp add: p fallbackStep_present)
qed

lemma fallback_added_entries:
  assumes "fold fallbackStep ps (byEvent, byUser) = (byEvent', byUser')"
  shows "\<exists>added. byUser' = byUser @ added \<and>
           fold fallbackStep added (byEvent, byUser) = (byEvent', byUser')"
  using assms
proof (induction ps arbitrary: byEvent byUser)
  case Nil
  then show ?case by simp
next
  case (Cons p ps)
  obtain u c where p: "p = (u, c)" by (cases p)
  show ?case
  proof (cases "map_of byUser u")
    case (Some a)
    with Cons.prems have "fold fallbackStep ps (byEvent, byUser) = (byEvent', byUser')"
      by (simp add: p fallbackStep_present)
    from Cons.IH [OF this] show ?thesis .
  next
    case None
    then have absent: "u \<notin> fst ` set byUser"
      using map_of_present [of byUser u] by simp
    define be1 where "be1 = AList.update (lastShownEventId c)
        (bucket byEvent (lastShownEventId c) @ [receipt c]) byEvent"
    have step: "fallbackStep (u, c) (byEvent, byUser) = (be1, byUser @ [(u, c)])"
      by (simp add: fallbackStep_absent [OF None] be1_def update_absent [OF absent])
    with Cons.prems have "fold fallbackStep ps (be1, byUser @ [(u, c)]) = (byEvent', byUser')"
      by (simp add: p)
    from Cons.IH [OF this] obtain added where
      a: "byUser' = (byUser @ [(u, c)]) @ added"
      and f: "fold fallbackStep added (be1, byUser @ [(u, c)]) = (byEvent', byUser')"
      by blast
    show ?thesis
      by (rule exI [of _ "(u, c) # added"]) (simp add: a f step)
  qed
qed

lemma fallback_idempotent:
  assumes "fold fallbackStep ps (fe, fu) = (be, bu)"
  shows "fold fallbackStep bu (fe, fu) = (be, bu)"
proof -
  from fallback_added_entries [OF assms] obtain added where
    a: "bu = fu @ added" and f: "fold fallbackStep added (fe, fu) = (be, bu)"
    by blast
  have "\<forall>p \<in> set fu. map_of fu (fst p) \<noteq> None"
    unfolding map_of_present by simp
  then have "fold fallbackStep fu (fe, fu) = (fe, fu)"
    by (rule fallback_skips_present)
  then show ?thesis
    by (simp add: a f)
qed



lemma first_render:
  "getReadReceiptsByShownEvent exampleEnv (constructor False)
     (propsWith firstLog (Some roomA) None False)
   = Inr ([(''$A'', [seenBy ''@bob:hs'' 7])], panelAfterFirst)"
  by code_simp

lemma second_render:
  "getReadReceiptsByShownEvent exampleEnv panelAfterFirst
     (propsWith secondLog (Some roomA) None False)
   = Inr ([(''$B'', []), (''$A'', [seenBy ''@bob:hs'' 7])], panelAfterFirst)"
  by code_simp

text \<open>
  C10. With a room the aggregation returns. Without a room
  \<^verbatim>\<open>_getReadReceiptsForEvent\<close> returns \<^verbatim>\<open>null\<close> for every event, and
  \<^verbatim>\<open>_getReadReceiptsByShownEvent\<close> throws a TypeError as soon as the log holds a shown
  event (event ids being non-empty strings, as Matrix ids are; only then is
  \<^verbatim>\<open>lastShownEventId\<close> set). It returns normally without a room exactly when no event
  is shown. \<^verbatim>\<open>_getEventTiles\<close> calls it when \<^verbatim>\<open>showReadReceipts\<close> is set and throws with it.
\<close>

theorem receipts_need_room:
  "(room props \<noteq> None \<longrightarrow> (\<exists>r. getReadReceiptsByShownEvent env this props = Inr r)) \<and>
   (room props = None \<longrightarrow>
     (\<forall>e. getReadReceiptsForEvent env props e = None) \<and>
     ((\<exists>e \<in> set (events props). shouldShowEvent env this props e \<and> getId e \<noteq> []) \<longrightarrow>
        getReadReceiptsByShownEvent env this props = Inl TypeError \<and>
        (showReadReceipts props \<longrightarrow> getEventTiles depth env this props = Some (Inl TypeError))) \<and>
     (\<not> (\<exists>e \<in> set (events props). shouldShowEvent env this props e \<and> getId e \<noteq> []) \<longrightarrow>
        (\<exists>r. getReadReceiptsByShownEvent env this props = Inr r)))"
proof (intro impI conjI allI)
  assume "room props \<noteq> None"
  then show "\<exists>r. getReadReceiptsByShownEvent env this props = Inr r"
    by (rule getReadReceiptsByShownEvent_returns)
next
  fix e
  assume "room props = None"
  then show "getReadReceiptsForEvent env props e = None"
    by (simp add: getReadReceiptsForEvent_def)
next
  assume r: "room props = None"
    and s: "\<exists>e \<in> set (events props). shouldShowEvent env this props e \<and> getId e \<noteq> []"
  from forwardPass_no_room_throws [OF r s]
  show "getReadReceiptsByShownEvent env this props = Inl TypeError"
    by (simp add: getReadReceiptsByShownEvent_def)
next
  assume r: "room props = None"
    and s: "\<exists>e \<in> set (events props). shouldShowEvent env this props e \<and> getId e \<noteq> []"
    and "showReadReceipts props"
  from s have "\<exists>e \<in> set (events props).
      shouldShowEvent env (this\<lparr>readReceiptsByEvent := []\<rparr>) props e \<and> getId e \<noteq> []"
    by simp
  from forwardPass_no_room_throws [OF r this] \<open>showReadReceipts props\<close>
  show "getEventTiles depth env this props = Some (Inl TypeError)"
    by (simp add: getEventTiles_def getReadReceiptsByShownEvent_def Let_def)
next
  assume "\<not> (\<exists>e \<in> set (events props). shouldShowEvent env this props e \<and> getId e \<noteq> [])"
  from forwardPass_nothing_shown [OF this, of None]
  show "\<exists>r. getReadReceiptsByShownEvent env this props = Inr r"
    by (simp add: getReadReceiptsByShownEvent_def truthy_def split: prod.splits)
qed

theorem receipts_need_room_witness:
  "room (propsWith [hiddenEvent 0 ''$h'' 0, message 1 ''$A'' 1 None] None None False) = None \<and>
   shouldShowEvent exampleEnv (constructor False)
     (propsWith [hiddenEvent 0 ''$h'' 0, message 1 ''$A'' 1 None] None None False)
     (message 1 ''$A'' 1 None) \<and>
   getReadReceiptsByShownEvent exampleEnv (constructor False)
     (propsWith [hiddenEvent 0 ''$h'' 0, message 1 ''$A'' 1 None] None None False) = Inl TypeError \<and>
   getEventTiles 1 exampleEnv (constructor False)
     (propsWith [hiddenEvent 0 ''$h'' 0, message 1 ''$A'' 1 None] None None False)
     = Some (Inl TypeError)"
proof -
  have s: "shouldShowEvent exampleEnv (constructor False)
     (propsWith [hiddenEvent 0 ''$h'' 0, message 1 ''$A'' 1 None] None None False)
     (message 1 ''$A'' 1 None)"
    by (simp add: shouldShowEvent_def exampleEnv_def constructor_def propsWith_def message_def
          alice_def messageTypes_def isReply_def)
  have i: "getId (message 1 ''$A'' 1 None) \<noteq> []"
    by (simp add: message_def)
  have r: "room (propsWith [hiddenEvent 0 ''$h'' 0, message 1 ''$A'' 1 None] None None False) = None"
    and v: "showReadReceipts (propsWith [hiddenEvent 0 ''$h'' 0, message 1 ''$A'' 1 None] None None False)"
    and e: "events (propsWith [hiddenEvent 0 ''$h'' 0, message 1 ''$A'' 1 None] None None False)
            = [hiddenEvent 0 ''$h'' 0, message 1 ''$A'' 1 None]"
    by (simp_all add: propsWith_def)
  from receipts_need_room [of "propsWith [hiddenEvent 0 ''$h'' 0, message 1 ''$A'' 1 None] None None False"
      exampleEnv "constructor False" 1] s i r v e
  show ?thesis by simp
qed

text \<open>
  C4. The per-user cache never shrinks. With a room the aggregation returns; when it
  returns, every user id of the previous cache is a user id of the new cache, and for a
  user of the previous cache with no receipt on any event of the current log the new
  cache holds the previous entry unchanged and the bucket of the entry's
  \<^verbatim>\<open>lastShownEventId\<close> holds the entry's receipt, whether or not that event is in the log.
  (When the aggregation throws, \<^verbatim>\<open>_readReceiptsByUserId\<close> is not assigned.)
\<close>

theorem cache_never_shrinks:
  "(room props \<noteq> None \<longrightarrow> (\<exists>r. getReadReceiptsByShownEvent env this props = Inr r)) \<and>
   (getReadReceiptsByShownEvent env this props = Inr (byEvent, this') \<longrightarrow>
      fst ` set (readReceiptsByUserId this) \<subseteq> fst ` set (readReceiptsByUserId this') \<and>
      (\<forall>u entry.
          map_of (readReceiptsByUserId this) u = Some entry \<and>
          (\<forall>e \<in> set (events props). \<forall>rs.
              getReadReceiptsForEvent env props e = Some rs \<longrightarrow> u \<notin> receipt_userId ` set rs)
          \<longrightarrow> map_of (readReceiptsByUserId this') u = Some entry \<and>
              receipt entry \<in> set (bucket byEvent (lastShownEventId entry))))"
proof (rule conjI)
  show "room props \<noteq> None \<longrightarrow> (\<exists>r. getReadReceiptsByShownEvent env this props = Inr r)"
    using getReadReceiptsByShownEvent_returns by blast
next
  show "getReadReceiptsByShownEvent env this props = Inr (byEvent, this') \<longrightarrow>
      fst ` set (readReceiptsByUserId this) \<subseteq> fst ` set (readReceiptsByUserId this') \<and>
      (\<forall>u entry.
          map_of (readReceiptsByUserId this) u = Some entry \<and>
          (\<forall>e \<in> set (events props). \<forall>rs.
              getReadReceiptsForEvent env props e = Some rs \<longrightarrow> u \<notin> receipt_userId ` set rs)
          \<longrightarrow> map_of (readReceiptsByUserId this') u = Some entry \<and>
              receipt entry \<in> set (bucket byEvent (lastShownEventId entry)))"
  proof
    assume "getReadReceiptsByShownEvent env this props = Inr (byEvent, this')"
    then obtain fe fu be bu where
      fw: "forwardPass env this props (events props) None [] [] = Inr (fe, fu)"
      and fb: "fold fallbackStep (readReceiptsByUserId this) (fe, fu) = (be, bu)"
      and b: "byEvent = sortBuckets be"
      and t: "this' = this\<lparr>readReceiptsByUserId := bu\<rparr>"
      by (rule getReadReceiptsByShownEvent_Inr)
    have keys: "fst ` set (readReceiptsByUserId this) \<subseteq> fst ` set (readReceiptsByUserId this')"
      using fallback_user_keys [of "readReceiptsByUserId this" "(fe, fu)"]
      by (simp add: fb t)
    have carried: "map_of (readReceiptsByUserId this') u = Some entry \<and>
              receipt entry \<in> set (bucket byEvent (lastShownEventId entry))"
      if m: "map_of (readReceiptsByUserId this) u = Some entry"
        and n: "\<forall>e \<in> set (events props). \<forall>rs.
              getReadReceiptsForEvent env props e = Some rs \<longrightarrow> u \<notin> receipt_userId ` set rs"
      for u entry
    proof -
      have "u \<notin> fst ` set fu"
        using forwardPass_user_keys [OF fw, of u] n by auto
      then have "map_of (snd (fe, fu)) u = None"
        by (simp add: map_of_eq_None_iff)
      from fallback_carries [OF m this] fb
      have "map_of bu u = Some entry" "receipt entry \<in> set (bucket be (lastShownEventId entry))"
        by simp_all
      then show ?thesis
        by (simp add: t b bucket_sortBuckets)
    qed
    from keys carried
    show "fst ` set (readReceiptsByUserId this) \<subseteq> fst ` set (readReceiptsByUserId this') \<and>
      (\<forall>u entry.
          map_of (readReceiptsByUserId this) u = Some entry \<and>
          (\<forall>e \<in> set (events props). \<forall>rs.
              getReadReceiptsForEvent env props e = Some rs \<longrightarrow> u \<notin> receipt_userId ` set rs)
          \<longrightarrow> map_of (readReceiptsByUserId this') u = Some entry \<and>
              receipt entry \<in> set (bucket byEvent (lastShownEventId entry)))"
      by blast
  qed
qed

text \<open>
  A user cached on an event that has left the log, and who has no receipt in the log: the
  entry stays, and so does the receipt in the bucket of the absent event.
\<close>

theorem cache_never_shrinks_witness:
  "getReadReceiptsByShownEvent exampleEnv panelAfterFirst
     (propsWith secondLog (Some roomA) None False)
     = Inr ([(''$B'', []), (''$A'', [seenBy ''@bob:hs'' 7])], panelAfterFirst) \<and>
   map_of (readReceiptsByUserId panelAfterFirst) ''@bob:hs''
     = Some \<lparr>lastShownEventId = ''$A'', receipt = seenBy ''@bob:hs'' 7\<rparr> \<and>
   seenBy ''@bob:hs'' 7 \<in> set (bucket [(''$B'', []), (''$A'', [seenBy ''@bob:hs'' 7])] ''$A'') \<and>
   ''$A'' \<notin> getId ` set secondLog"
proof -
  let ?P = "propsWith secondLog (Some roomA) None False"
  have r: "room ?P \<noteq> None" by (simp add: propsWith_def)
  have m: "map_of (readReceiptsByUserId panelAfterFirst) ''@bob:hs''
     = Some \<lparr>lastShownEventId = ''$A'', receipt = seenBy ''@bob:hs'' 7\<rparr>"
    by (simp add: panelAfterFirst_def)
  have n: "\<forall>e \<in> set (events ?P). \<forall>rs.
      getReadReceiptsForEvent exampleEnv ?P e = Some rs \<longrightarrow> ''@bob:hs'' \<notin> receipt_userId ` set rs"
    by (simp add: propsWith_def secondLog_def getReadReceiptsForEvent_def roomReceipts_def
          roomA_def roomWith_def message_def List.map_filter_def)
  have g: "''$A'' \<notin> getId ` set secondLog"
    by (simp add: secondLog_def message_def)
  from cache_never_shrinks [of ?P exampleEnv panelAfterFirst
      "[(''$B'', []), (''$A'', [seenBy ''@bob:hs'' 7])]" panelAfterFirst] second_render
  have "\<forall>u entry.
          map_of (readReceiptsByUserId panelAfterFirst) u = Some entry \<and>
          (\<forall>e \<in> set (events ?P). \<forall>rs.
              getReadReceiptsForEvent exampleEnv ?P e = Some rs \<longrightarrow> u \<notin> receipt_userId ` set rs)
          \<longrightarrow> map_of (readReceiptsByUserId panelAfterFirst) u = Some entry \<and>
              receipt entry \<in> set (bucket [(''$B'', []), (''$A'', [seenBy ''@bob:hs'' 7])]
                                      (lastShownEventId entry))"
    by blast
  with m n have "receipt \<lparr>lastShownEventId = ''$A'', receipt = seenBy ''@bob:hs'' 7\<rparr>
      \<in> set (bucket [(''$B'', []), (''$A'', [seenBy ''@bob:hs'' 7])]
           (lastShownEventId \<lparr>lastShownEventId = ''$A'', receipt = seenBy ''@bob:hs'' 7\<rparr>))"
    by blast
  with second_render m g show ?thesis by simp
qed

text \<open>
  C1, as stated, fails. After a first render of the log \<open>[$A]\<close>, where \<open>@bob\<close> has read
  \<open>$A\<close>, a second render of the log \<open>[$B]\<close> returns a map with the key \<open>$A\<close>, the id of no
  event of the current log: the fallback pass files the cached receipt under the event id
  of last time.
\<close>

theorem receipt_keys_counterexample:
  "getReadReceiptsByShownEvent exampleEnv (constructor False)
     (propsWith firstLog (Some roomA) None False)
     = Inr ([(''$A'', [seenBy ''@bob:hs'' 7])], panelAfterFirst) \<and>
   getReadReceiptsByShownEvent exampleEnv panelAfterFirst
     (propsWith secondLog (Some roomA) None False)
     = Inr ([(''$B'', []), (''$A'', [seenBy ''@bob:hs'' 7])], panelAfterFirst) \<and>
   ''$A'' \<in> fst ` set [(''$B'', [] :: Receipt list), (''$A'', [seenBy ''@bob:hs'' 7])] \<and>
   ''$A'' \<notin> getId ` set (events (propsWith secondLog (Some roomA) None False))"
  using first_render second_render
  by (simp add: propsWith_def secondLog_def message_def)

text \<open>
  C1, amended. Every key of the returned \<^verbatim>\<open>receiptsByEvent\<close> is the id of an event of the
  current log that the visibility filter accepts, or the \<^verbatim>\<open>lastShownEventId\<close> of an entry
  of the previous per-user cache that the fallback pass carried over: an entry whose user
  the forward pass recorded no receipt for, and which the new cache holds unchanged. With
  an empty previous cache every key is the id of a shown event of the log.
\<close>

theorem receipt_keys_shown_or_carried:
  assumes "getReadReceiptsByShownEvent env this props = Inr (byEvent, this')"
    and "k \<in> fst ` set byEvent"
  shows "(\<exists>e \<in> set (events props). shouldShowEvent env this props e \<and> getId e = k) \<or>
         (\<exists>u entry. (u, entry) \<in> set (readReceiptsByUserId this) \<and>
            lastShownEventId entry = k \<and>
            map_of (readReceiptsByUserId this') u = Some entry \<and>
            (\<exists>fe fu. forwardPass env this props (events props) None [] [] = Inr (fe, fu) \<and>
                     map_of fu u = None))"
proof -
  from assms(1) obtain fe fu be bu where
    fw: "forwardPass env this props (events props) None [] [] = Inr (fe, fu)"
    and fb: "fold fallbackStep (readReceiptsByUserId this) (fe, fu) = (be, bu)"
    and b: "byEvent = sortBuckets be"
    and t: "this' = this\<lparr>readReceiptsByUserId := bu\<rparr>"
    by (rule getReadReceiptsByShownEvent_Inr)
  from assms(2) have "k \<in> fst ` set (fst (fold fallbackStep (readReceiptsByUserId this) (fe, fu)))"
    by (simp add: b sortBuckets_keys fb)
  from fallback_event_keys [OF this] consider
    (forward) "k \<in> fst ` set fe"
    | (carried) u c where "(u, c) \<in> set (readReceiptsByUserId this)" "lastShownEventId c = k"
        "map_of fu u = None" "map_of bu u = Some c"
    by (auto simp: fb)
  then show ?thesis
  proof cases
    case forward
    from forwardPass_event_keys [OF fw forward] show ?thesis by simp
  next
    case carried
    with fw show ?thesis
      by (intro disjI2 exI [of _ u] exI [of _ c]) (simp add: t)
  qed
qed

theorem receipt_keys_shown_or_carried_witness:
  "getReadReceiptsByShownEvent exampleEnv panelAfterFirst
     (propsWith secondLog (Some roomA) None False)
     = Inr ([(''$B'', []), (''$A'', [seenBy ''@bob:hs'' 7])], panelAfterFirst) \<and>
   ''$A'' \<in> fst ` set [(''$B'', [] :: Receipt list), (''$A'', [seenBy ''@bob:hs'' 7])] \<and>
   ''$A'' \<notin> getId ` set (events (propsWith secondLog (Some roomA) None False)) \<and>
   (\<exists>u entry. (u, entry) \<in> set (readReceiptsByUserId panelAfterFirst) \<and>
      lastShownEventId entry = ''$A'' \<and>
      map_of (readReceiptsByUserId panelAfterFirst) u = Some entry)"
proof -
  have k: "''$A'' \<in> fst ` set [(''$B'', [] :: Receipt list), (''$A'', [seenBy ''@bob:hs'' 7])]"
    by simp
  have g: "''$A'' \<notin> getId ` set (events (propsWith secondLog (Some roomA) None False))"
    by (simp add: propsWith_def secondLog_def message_def)
  from receipt_keys_shown_or_carried [OF second_render k] g
  have "\<exists>u entry. (u, entry) \<in> set (readReceiptsByUserId panelAfterFirst) \<and>
      lastShownEventId entry = ''$A'' \<and>
      map_of (readReceiptsByUserId panelAfterFirst) u = Some entry"
    by force
  with second_render k g show ?thesis by simp
qed

text \<open>
  C7. With a room the aggregation returns. Run again on the same log and receipt source
  from the instance the first run left, it returns the same \<^verbatim>\<open>receiptsByEvent\<close> and
  leaves the instance, and with it \<^verbatim>\<open>_readReceiptsByUserId\<close>, as the first run left it.
\<close>

theorem aggregation_idempotent:
  "(room props \<noteq> None \<longrightarrow> (\<exists>r. getReadReceiptsByShownEvent env this props = Inr r)) \<and>
   (getReadReceiptsByShownEvent env this props = Inr (byEvent, this') \<longrightarrow>
      getReadReceiptsByShownEvent env this' props = Inr (byEvent, this'))"
proof (rule conjI)
  show "room props \<noteq> None \<longrightarrow> (\<exists>r. getReadReceiptsByShownEvent env this props = Inr r)"
    using getReadReceiptsByShownEvent_returns by blast
next
  show "getReadReceiptsByShownEvent env this props = Inr (byEvent, this') \<longrightarrow>
      getReadReceiptsByShownEvent env this' props = Inr (byEvent, this')"
  proof
    assume "getReadReceiptsByShownEvent env this props = Inr (byEvent, this')"
    then obtain fe fu be bu where
      fw: "forwardPass env this props (events props) None [] [] = Inr (fe, fu)"
      and fb: "fold fallbackStep (readReceiptsByUserId this) (fe, fu) = (be, bu)"
      and b: "byEvent = sortBuckets be"
      and t: "this' = this\<lparr>readReceiptsByUserId := bu\<rparr>"
      by (rule getReadReceiptsByShownEvent_Inr)
    have fw': "forwardPass env this' props (events props) None [] [] = Inr (fe, fu)"
      by (simp add: t forwardPass_cache_irrelevant fw)
    have fb': "fold fallbackStep (readReceiptsByUserId this') (fe, fu) = (be, bu)"
      using fallback_idempotent [OF fb] by (simp add: t)
    show "getReadReceiptsByShownEvent env this' props = Inr (byEvent, this')"
      by (simp add: getReadReceiptsByShownEvent_def fw' fb' b) (simp add: t)
  qed
qed

theorem aggregation_idempotent_witness:
  "room (propsWith firstLog (Some roomA) None False) \<noteq> None \<and>
   getReadReceiptsByShownEvent exampleEnv (constructor False)
     (propsWith firstLog (Some roomA) None False)
     = Inr ([(''$A'', [seenBy ''@bob:hs'' 7])], panelAfterFirst) \<and>
   getReadReceiptsByShownEvent exampleEnv panelAfterFirst
     (propsWith firstLog (Some roomA) None False)
     = Inr ([(''$A'', [seenBy ''@bob:hs'' 7])], panelAfterFirst)"
  using aggregation_idempotent [of "propsWith firstLog (Some roomA) None False" exampleEnv
      "constructor False" "[(''$A'', [seenBy ''@bob:hs'' 7])]" panelAfterFirst] first_render
  by (simp add: propsWith_def)

section \<open>Timeline assembly: properties\<close>

lemma those_eq_Some: "those xs = Some ys \<longleftrightarrow> xs = map Some ys"
  by (induction xs arbitrary: ys) (auto split: option.splits)

lemma prevShownEvent_Suc:
  assumes "i < length (events props)"
  shows "prevShownEvent env this props (Suc i) =
           (if shouldShowEvent env this props (events props ! i) then Some (events props ! i)
            else prevShownEvent env this props i)"
  by (simp add: prevShownEvent_def take_Suc_conv_app_nth [OF assms])

lemma eventTilesLoop_blocks:
  "i \<le> length (events props) \<Longrightarrow>
   eventTilesLoop depth env this props lastShown lastIndex i (prevShownEvent env this props i) ret =
     map_option (\<lambda>blocks. ret @ concat blocks)
       (those (map (blockAt depth env this props lastShown lastIndex) [i..<length (events props)]))"
proof (induction "length (events props) - i" arbitrary: i ret)
  case 0
  then show ?case by (subst eventTilesLoop.simps) simp
next
  case (Suc d)
  then have lt: "i < length (events props)" and d: "d = length (events props) - Suc i"
    and le: "Suc i \<le> length (events props)" by simp_all
  let ?e = "events props ! i"
  let ?m = "case readMarkerForEvent this props (getId ?e) (lastIndex \<le> int i) of
              None \<Rightarrow> [] | Some m \<Rightarrow> [m]"
  have upt: "[i..<length (events props)] = i # [Suc i..<length (events props)]"
    using lt by (simp add: upt_conv_Cons)
  show ?case
  proof (cases "shouldShowEvent env this props ?e")
    case False
    have b: "blockAt depth env this props lastShown lastIndex i = Some ?m"
      by (simp add: blockAt_def Let_def False)
    have "eventTilesLoop depth env this props lastShown lastIndex i
            (prevShownEvent env this props i) ret =
          eventTilesLoop depth env this props lastShown lastIndex (Suc i)
            (prevShownEvent env this props (Suc i)) (ret @ ?m)"
      by (subst eventTilesLoop.simps) (simp add: lt False Let_def prevShownEvent_Suc)
    also have "\<dots> = map_option (\<lambda>blocks. (ret @ ?m) @ concat blocks)
       (those (map (blockAt depth env this props lastShown lastIndex) [Suc i..<length (events props)]))"
      by (rule Suc.hyps(1) [OF d le])
    finally show ?thesis
      by (simp add: upt b option.map_comp comp_def split: option.splits)
  next
    case True
    let ?t = "getTilesForEvent depth env this props (prevShownEvent env this props i) ?e
                (Some (Some ?e = lastShown))
                (fst (getNextEventInfo env this props (events props) i))
                (snd (getNextEventInfo env this props (events props) i)) 0"
    have b: "blockAt depth env this props lastShown lastIndex i = map_option (\<lambda>tiles. tiles @ ?m) ?t"
      by (simp add: blockAt_def Let_def True)
    show ?thesis
    proof (cases ?t)
      case None
      have "eventTilesLoop depth env this props lastShown lastIndex i
              (prevShownEvent env this props i) ret = None"
        by (subst eventTilesLoop.simps) (simp add: lt True Let_def None)
      then show ?thesis by (simp add: upt b None)
    next
      case (Some tiles)
      have "eventTilesLoop depth env this props lastShown lastIndex i
              (prevShownEvent env this props i) ret =
            eventTilesLoop depth env this props lastShown lastIndex (Suc i)
              (prevShownEvent env this props (Suc i)) (ret @ tiles @ ?m)"
        by (subst eventTilesLoop.simps) (simp add: lt True Let_def Some prevShownEvent_Suc)
      also have "\<dots> = map_option (\<lambda>blocks. (ret @ tiles @ ?m) @ concat blocks)
         (those (map (blockAt depth env this props lastShown lastIndex) [Suc i..<length (events props)]))"
        by (rule Suc.hyps(1) [OF d le])
      finally show ?thesis
        by (simp add: upt b Some option.map_comp comp_def split: option.splits)
    qed
  qed
qed

lemma shouldShowEvent_same_flag:
  "showHiddenEventsInTimeline a = showHiddenEventsInTimeline b \<Longrightarrow>
     shouldShowEvent env a props = shouldShowEvent env b props"
  by (simp add: shouldShowEvent_def fun_eq_iff)

lemma reverseScan_same_flag:
  assumes "showHiddenEventsInTimeline a = showHiddenEventsInTimeline b"
  shows "reverseScan env a props n l = reverseScan env b props n l"
  by (induction n arbitrary: l)
     (simp_all add: shouldShowEvent_same_flag [OF assms] Let_def cong: if_cong)

lemma getReadReceiptsByShownEvent_frame:
  assumes "getReadReceiptsByShownEvent env this props = Inr (byEvent, this')"
  shows "showHiddenEventsInTimeline this' = showHiddenEventsInTimeline this"
    and "ghostReadMarkers this' = ghostReadMarkers this"
  using assms by (auto elim!: getReadReceiptsByShownEvent_Inr)

lemma getEventTiles_Inr:
  assumes "getEventTiles depth env this props = Some (Inr (nodes, this'))"
  shows "showHiddenEventsInTimeline this' = showHiddenEventsInTimeline this"
    and "ghostReadMarkers this' = ghostReadMarkers this"
    and "eventTilesLoop depth env this' props (lastShownEvent env this' props)
           (lastShownNonLocalEchoIndex env this' props) 0 None [] = Some nodes"
proof -
  define scan where "scan = reverseScan env this props (length (events props)) None"
  define receipts where "receipts =
     (if showReadReceipts props
      then (case getReadReceiptsByShownEvent env (this\<lparr>readReceiptsByEvent := []\<rparr>) props of
              Inl e \<Rightarrow> Inl e
            | Inr (byEvent, this1) \<Rightarrow> Inr (this1\<lparr>readReceiptsByEvent := byEvent\<rparr>))
      else Inr (this\<lparr>readReceiptsByEvent := []\<rparr>))"
  from assms have r: "receipts = Inr this'"
    and l: "eventTilesLoop depth env this' props (fst scan) (snd scan) 0 None [] = Some nodes"
    by (auto simp: getEventTiles_def Let_def scan_def receipts_def
             split: sum.splits option.splits if_splits prod.splits)
  from r show f: "showHiddenEventsInTimeline this' = showHiddenEventsInTimeline this"
    and "ghostReadMarkers this' = ghostReadMarkers this"
    by (auto simp: receipts_def split: if_splits sum.splits prod.splits
             dest: getReadReceiptsByShownEvent_frame)
  have "scan = reverseScan env this' props (length (events props)) None"
    unfolding scan_def by (rule reverseScan_same_flag) (simp add: f)
  with l show "eventTilesLoop depth env this' props (lastShownEvent env this' props)
           (lastShownNonLocalEchoIndex env this' props) 0 None [] = Some nodes"
    by (simp add: lastShownEvent_def lastShownNonLocalEchoIndex_def)
qed

lemma getEventTiles_blocks:
  assumes "getEventTiles depth env this props = Some (Inr (nodes, this'))"
  shows "\<exists>blocks. nodes = concat blocks \<and>
           map Some blocks =
             map (blockAt depth env this' props (lastShownEvent env this' props)
                    (lastShownNonLocalEchoIndex env this' props)) [0..<length (events props)]"
proof -
  have p0: "prevShownEvent env this' props 0 = None"
    by (simp add: prevShownEvent_def)
  from getEventTiles_Inr(3) [OF assms]
       eventTilesLoop_blocks [of 0 props depth env this' "lastShownEvent env this' props"
         "lastShownNonLocalEchoIndex env this' props" "[]"]
  have "map_option concat
          (those (map (blockAt depth env this' props (lastShownEvent env this' props)
                    (lastShownNonLocalEchoIndex env this' props)) [0..<length (events props)]))
        = Some nodes"
    by (simp add: p0)
  then obtain blocks where
    "those (map (blockAt depth env this' props (lastShownEvent env this' props)
                    (lastShownNonLocalEchoIndex env this' props)) [0..<length (events props)])
       = Some blocks"
    "nodes = concat blocks"
    by (auto simp: map_option_case split: option.splits)
  then show ?thesis
    by (auto simp: those_eq_Some)
qed

lemma getTilesForEvent_Some:
  assumes "getTilesForEvent depth env this props prevEvent mxEv isLast nextEvent nextTile level
             = Some tiles"
  shows "\<exists>d tile subtiles. depth = Suc d \<and> tiles = [EventTile tile subtiles] \<and>
           tile_event tile = mxEv \<and> tile_level tile = level \<and>
           continuation tile = shouldFormContinuation (haveTileForEvent env) prevEvent mxEv \<and>
           lastSuccessful tile = isLastSuccessful env this props mxEv nextEvent nextTile \<and>
           readReceipts tile = map_of (readReceiptsByEvent this) (getId mxEv) \<and>
           map Some subtiles =
             map (\<lambda>e. getTilesForEvent d env this props None e None None None (level + 1))
               (directSubevents props mxEv)"
proof (cases depth)
  case 0
  with assms show ?thesis by simp
next
  case (Suc d)
  with assms show ?thesis
    by (auto simp: Let_def those_eq_Some split: option.splits)
qed

lemma map_Some_eq_map_upt:
  assumes "map Some blocks = map f [0..<n]"
  shows "length blocks = n" and "\<And>i. i < n \<Longrightarrow> f i = Some (blocks ! i)"
proof -
  from assms have "length (map Some blocks) = length (map f [0..<n])" by simp
  then show l: "length blocks = n" by simp
  fix i assume "i < n"
  with l have "map Some blocks ! i = Some (blocks ! i)" "map f [0..<n] ! i = f i"
    by simp_all
  with assms show "f i = Some (blocks ! i)" by simp
qed

lemma readMarkerForEvent_ReadMarker:
  "readMarkerForEvent this props eventId isLastEvent = Some (ReadMarker eid hr) \<longleftrightarrow>
     readMarkerEventId props = Some eventId \<and> eid = eventId \<and>
     hr = (readMarkerVisible props \<and> \<not> isLastEvent)"
  by (auto simp: readMarkerForEvent_def Let_def)

lemma blockAt_ReadMarker:
  assumes "blockAt depth env this props lastShown lastIndex i = Some block"
  shows "ReadMarker eid hr \<in> set block \<longleftrightarrow>
           readMarkerEventId props = Some (getId (events props ! i)) \<and>
           eid = getId (events props ! i) \<and>
           hr = (readMarkerVisible props \<and> int i < lastIndex)"
proof -
  let ?mk = "readMarkerForEvent this props (getId (events props ! i)) (lastIndex \<le> int i)"
  let ?m = "case ?mk of None \<Rightarrow> [] | Some m \<Rightarrow> [m]"
  have m: "ReadMarker eid hr \<in> set ?m \<longleftrightarrow> ?mk = Some (ReadMarker eid hr)"
    by (cases ?mk) auto
  have "ReadMarker eid hr \<in> set block \<longleftrightarrow> ReadMarker eid hr \<in> set ?m"
  proof (cases "shouldShowEvent env this props (events props ! i)")
    case False
    with assms show ?thesis by (simp add: blockAt_def Let_def)
  next
    case True
    with assms obtain tiles where
      t: "getTilesForEvent depth env this props (prevShownEvent env this props i)
            (events props ! i) (Some (Some (events props ! i) = lastShown))
            (fst (getNextEventInfo env this props (events props) i))
            (snd (getNextEventInfo env this props (events props) i)) 0 = Some tiles"
      and b: "block = tiles @ ?m"
      by (auto simp: blockAt_def Let_def)
    from getTilesForEvent_Some [OF t] obtain tile subtiles where
      "tiles = [EventTile tile subtiles]" by blast
    with b show ?thesis by simp
  qed
  with m show ?thesis
    by (auto simp: readMarkerForEvent_ReadMarker)
qed

lemma reverseScan_index:
  "(\<forall>j < n. shouldShowEvent env this props (events props ! j) \<and>
             \<not> truthy (status (events props ! j))
        \<longrightarrow> int j \<le> snd (reverseScan env this props n l)) \<and>
   (snd (reverseScan env this props n l) = - 1 \<or>
    (0 \<le> snd (reverseScan env this props n l) \<and>
     nat (snd (reverseScan env this props n l)) < n \<and>
     shouldShowEvent env this props (events props ! nat (snd (reverseScan env this props n l))) \<and>
     \<not> truthy (status (events props ! nat (snd (reverseScan env this props n l))))))"
proof (induction n arbitrary: l)
  case 0
  then show ?case by simp
next
  case (Suc i)
  let ?e = "events props ! i"
  show ?case
  proof (cases "shouldShowEvent env this props ?e \<and> \<not> truthy (status ?e)")
    case True
    then have "snd (reverseScan env this props (Suc i) l) = int i"
      by (simp add: Let_def)
    with True show ?thesis by auto
  next
    case False
    then obtain l' where r: "reverseScan env this props (Suc i) l = reverseScan env this props i l'"
      by (cases "shouldShowEvent env this props ?e") (auto simp: Let_def)
    from Suc.IH [of l'] False show ?thesis
      unfolding r by (auto simp: less_Suc_eq)
  qed
qed

lemma those_map_Some:
  "(\<forall>x \<in> set xs. \<exists>y. f x = Some y) \<Longrightarrow> \<exists>ys. those (map f xs) = Some ys"
  by (induction xs) auto

lemma getTilesForEvent_returns:
  assumes rank: "\<forall>p \<in> set (events props). \<forall>c \<in> set (directSubevents props p). rank c < rank p"
  shows "mxEv \<in> set (events props) \<Longrightarrow> rank mxEv < depth \<Longrightarrow>
         \<exists>tiles. getTilesForEvent depth env this props prevEvent mxEv isLast nextEvent nextTile level
                    = Some tiles"
proof (induction depth arbitrary: mxEv prevEvent isLast nextEvent nextTile level)
  case 0
  then show ?case by simp
next
  case (Suc d)
  have "\<forall>c \<in> set (directSubevents props mxEv).
          \<exists>y. getTilesForEvent d env this props None c None None None (level + 1) = Some y"
  proof
    fix c assume c: "c \<in> set (directSubevents props mxEv)"
    then have "c \<in> set (events props)" by (simp add: directSubevents_def)
    moreover from rank Suc.prems c have "rank c < d" by fastforce
    ultimately show "\<exists>y. getTilesForEvent d env this props None c None None None (level + 1) = Some y"
      by (rule Suc.IH)
  qed
  from those_map_Some [OF this] show ?case
    by (auto simp: Let_def)
qed

lemma blockAt_returns:
  assumes "\<forall>p \<in> set (events props). \<forall>c \<in> set (directSubevents props p). rank c < rank p"
    and "\<forall>e \<in> set (events props). rank e < depth"
    and "i < length (events props)"
  shows "\<exists>block. blockAt depth env this props lastShown lastIndex i = Some block"
proof -
  from assms(3) have m: "events props ! i \<in> set (events props)" by simp
  with assms(2) have "rank (events props ! i) < depth" by blast
  from getTilesForEvent_returns [OF assms(1) m this]
  show ?thesis
    by (fastforce simp: blockAt_def Let_def)
qed

lemma getEventTiles_returns:
  assumes "showReadReceipts props \<longrightarrow> room props \<noteq> None"
    and "\<forall>p \<in> set (events props). \<forall>c \<in> set (directSubevents props p). rank c < rank p"
    and "\<forall>e \<in> set (events props). rank e < depth"
  shows "\<exists>nodes this'. getEventTiles depth env this props = Some (Inr (nodes, this'))"
proof -
  define scan where "scan = reverseScan env this props (length (events props)) None"
  define receipts where "receipts =
     (if showReadReceipts props
      then (case getReadReceiptsByShownEvent env (this\<lparr>readReceiptsByEvent := []\<rparr>) props of
              Inl e \<Rightarrow> Inl e
            | Inr (byEvent, this1) \<Rightarrow> Inr (this1\<lparr>readReceiptsByEvent := byEvent\<rparr>))
      else Inr (this\<lparr>readReceiptsByEvent := []\<rparr>))"
  have "\<exists>this2. receipts = Inr this2"
  proof (cases "showReadReceipts props")
    case True
    with assms(1) have "room props \<noteq> None" by simp
    from getReadReceiptsByShownEvent_returns [OF this, of env "this\<lparr>readReceiptsByEvent := []\<rparr>"]
    show ?thesis by (auto simp: receipts_def True)
  next
    case False
    then show ?thesis by (simp add: receipts_def)
  qed
  then obtain this2 where r: "receipts = Inr this2" ..
  have "\<forall>i \<in> set [0..<length (events props)].
          \<exists>y. blockAt depth env this2 props (fst scan) (snd scan) i = Some y"
    using blockAt_returns [OF assms(2,3)] by simp
  from those_map_Some [OF this] obtain blocks where
    "those (map (blockAt depth env this2 props (fst scan) (snd scan)) [0..<length (events props)])
       = Some blocks" ..
  with eventTilesLoop_blocks [of 0 props depth env this2 "fst scan" "snd scan" "[]"]
  have "eventTilesLoop depth env this2 props (fst scan) (snd scan) 0 None [] = Some (concat blocks)"
    by (simp add: prevShownEvent_def)
  with r show ?thesis
    by (simp add: getEventTiles_def Let_def scan_def [symmetric] receipts_def [symmetric])
qed

text \<open>
  C8. When the read-marker event id is the id of an event, \<^verbatim>\<open>_readMarkerForEvent\<close> returns
  the anchor node for it, with the visible indicator inside exactly when
  \<^verbatim>\<open>readMarkerVisible\<close> is set and the position is not the last one. In the list that
  \<^verbatim>\<open>_getEventTiles\<close> returns, the read-marker nodes are exactly the anchor nodes of the
  events of the log that carry the read-marker id, each with the indicator exactly when
  \<^verbatim>\<open>readMarkerVisible\<close> is set and the event's index is below
  \<^verbatim>\<open>lastShownNonLocalEchoIndex\<close>; that index is the greatest index of a shown event
  without a send status, or \<open>-1\<close>. So a marker on the last shown event that is not a local
  echo has its anchor node and no indicator. The call returns when the room is there (or
  receipts are off) and the replies of the log form no cycle within the recursion depth.
\<close>

theorem read_marker_anchor:
  "(readMarkerEventId props = Some eventId \<longrightarrow>
      readMarkerForEvent this props eventId isLastEvent =
        Some (ReadMarker eventId (readMarkerVisible props \<and> \<not> isLastEvent))) \<and>
   (getEventTiles depth env this props = Some (Inr (nodes, this')) \<longrightarrow>
      (\<forall>eid hr. ReadMarker eid hr \<in> set nodes \<longleftrightarrow>
         readMarkerEventId props = Some eid \<and>
         (\<exists>i < length (events props). getId (events props ! i) = eid \<and>
            hr = (readMarkerVisible props \<and>
                  int i < lastShownNonLocalEchoIndex env this props)))) \<and>
   (getEventTiles depth env this props = Some (Inr (nodes, this')) \<and>
    tail < length (events props) \<and> readMarkerEventId props = Some (getId (events props ! tail)) \<and>
    int tail = lastShownNonLocalEchoIndex env this props \<longrightarrow>
      ReadMarker (getId (events props ! tail)) False \<in> set nodes) \<and>
   (\<forall>j < length (events props).
       shouldShowEvent env this props (events props ! j) \<and> \<not> truthy (status (events props ! j))
       \<longrightarrow> int j \<le> lastShownNonLocalEchoIndex env this props) \<and>
   (lastShownNonLocalEchoIndex env this props = - 1 \<or>
    (0 \<le> lastShownNonLocalEchoIndex env this props \<and>
     nat (lastShownNonLocalEchoIndex env this props) < length (events props) \<and>
     shouldShowEvent env this props
       (events props ! nat (lastShownNonLocalEchoIndex env this props)) \<and>
     \<not> truthy (status (events props ! nat (lastShownNonLocalEchoIndex env this props))))) \<and>
   ((showReadReceipts props \<longrightarrow> room props \<noteq> None) \<and>
    (\<forall>p \<in> set (events props). \<forall>c \<in> set (directSubevents props p). rank c < rank p) \<and>
    (\<forall>e \<in> set (events props). rank e < depth) \<longrightarrow>
      (\<exists>ns t. getEventTiles depth env this props = Some (Inr (ns, t))))"
proof -
  have a: "readMarkerEventId props = Some eventId \<longrightarrow>
      readMarkerForEvent this props eventId isLastEvent =
        Some (ReadMarker eventId (readMarkerVisible props \<and> \<not> isLastEvent))"
    by (auto simp: readMarkerForEvent_def)
  have b: "getEventTiles depth env this props = Some (Inr (nodes, this')) \<longrightarrow>
      (\<forall>eid hr. ReadMarker eid hr \<in> set nodes \<longleftrightarrow>
         readMarkerEventId props = Some eid \<and>
         (\<exists>i < length (events props). getId (events props ! i) = eid \<and>
            hr = (readMarkerVisible props \<and>
                  int i < lastShownNonLocalEchoIndex env this props)))"
  proof (intro impI allI)
    fix eid hr
    assume g: "getEventTiles depth env this props = Some (Inr (nodes, this'))"
    have idx: "lastShownNonLocalEchoIndex env this' props = lastShownNonLocalEchoIndex env this props"
      unfolding lastShownNonLocalEchoIndex_def
      by (simp add: reverseScan_same_flag [OF getEventTiles_Inr(1) [OF g]])
    from getEventTiles_blocks [OF g] obtain blocks where
      n: "nodes = concat blocks"
      and m: "map Some blocks =
             map (blockAt depth env this' props (lastShownEvent env this' props)
                    (lastShownNonLocalEchoIndex env this' props)) [0..<length (events props)]"
      by blast
    note l = map_Some_eq_map_upt(1) [OF m] and bi = map_Some_eq_map_upt(2) [OF m]
    have "ReadMarker eid hr \<in> set nodes \<longleftrightarrow> (\<exists>b \<in> set blocks. ReadMarker eid hr \<in> set b)"
      unfolding n by simp
    also have "\<dots> \<longleftrightarrow> (\<exists>i < length blocks. ReadMarker eid hr \<in> set (blocks ! i))"
      by (metis in_set_conv_nth)
    also have "\<dots> \<longleftrightarrow> (\<exists>i < length (events props). ReadMarker eid hr \<in> set (blocks ! i))"
      by (simp add: l)
    also have "\<dots> \<longleftrightarrow> (\<exists>i < length (events props).
         readMarkerEventId props = Some (getId (events props ! i)) \<and>
         eid = getId (events props ! i) \<and>
         hr = (readMarkerVisible props \<and> int i < lastShownNonLocalEchoIndex env this props))"
      using blockAt_ReadMarker [OF bi, of _ eid hr] by (auto simp: idx)
    also have "\<dots> \<longleftrightarrow> readMarkerEventId props = Some eid \<and>
         (\<exists>i < length (events props). getId (events props ! i) = eid \<and>
            hr = (readMarkerVisible props \<and>
                  int i < lastShownNonLocalEchoIndex env this props))"
      by auto
    finally show "ReadMarker eid hr \<in> set nodes \<longleftrightarrow>
         readMarkerEventId props = Some eid \<and>
         (\<exists>i < length (events props). getId (events props ! i) = eid \<and>
            hr = (readMarkerVisible props \<and>
                  int i < lastShownNonLocalEchoIndex env this props))" .
  qed
  have b': "getEventTiles depth env this props = Some (Inr (nodes, this')) \<and>
    tail < length (events props) \<and> readMarkerEventId props = Some (getId (events props ! tail)) \<and>
    int tail = lastShownNonLocalEchoIndex env this props \<longrightarrow>
      ReadMarker (getId (events props ! tail)) False \<in> set nodes"
  proof
    assume t: "getEventTiles depth env this props = Some (Inr (nodes, this')) \<and>
      tail < length (events props) \<and> readMarkerEventId props = Some (getId (events props ! tail)) \<and>
      int tail = lastShownNonLocalEchoIndex env this props"
    then have "\<exists>i < length (events props). getId (events props ! i) = getId (events props ! tail) \<and>
            False = (readMarkerVisible props \<and>
                     int i < lastShownNonLocalEchoIndex env this props)"
      by (intro exI [of _ tail]) simp
    with b t show "ReadMarker (getId (events props ! tail)) False \<in> set nodes"
      by blast
  qed
  note c = reverseScan_index [of "length (events props)" env this props None,
      folded lastShownNonLocalEchoIndex_def]
  have d: "(showReadReceipts props \<longrightarrow> room props \<noteq> None) \<and>
    (\<forall>p \<in> set (events props). \<forall>c \<in> set (directSubevents props p). rank c < rank p) \<and>
    (\<forall>e \<in> set (events props). rank e < depth) \<longrightarrow>
      (\<exists>ns t. getEventTiles depth env this props = Some (Inr (ns, t)))"
    using getEventTiles_returns [of props rank depth env this] by blast
  from a b b' c d show ?thesis by blast
qed

lemma exampleLog_no_replies: "directSubevents (propsWith exampleLog rm mk vis) p = []"
  by (simp add: directSubevents_def propsWith_def exampleLog_def isReply_def message_def
        hiddenEvent_def)

text \<open>
  The read marker on \<open>$B\<close>, the last shown event of the example log: the anchor node is in
  the list, without the indicator.
\<close>

theorem read_marker_anchor_witness:
  "room (propsWith exampleLog (Some exampleRoom) (Some ''$B'') True) \<noteq> None \<and>
   readMarkerVisible (propsWith exampleLog (Some exampleRoom) (Some ''$B'') True) \<and>
   lastShownNonLocalEchoIndex exampleEnv (constructor False)
     (propsWith exampleLog (Some exampleRoom) (Some ''$B'') True) = 3 \<and>
   (\<exists>nodes this'.
      getEventTiles 1 exampleEnv (constructor False)
        (propsWith exampleLog (Some exampleRoom) (Some ''$B'') True) = Some (Inr (nodes, this')) \<and>
      ReadMarker ''$B'' False \<in> set nodes)"
proof -
  let ?P = "propsWith exampleLog (Some exampleRoom) (Some ''$B'') True"
  have r: "room ?P \<noteq> None" and v: "readMarkerVisible ?P"
    and mk: "readMarkerEventId ?P = Some ''$B''" and e: "events ?P = exampleLog"
    by (simp_all add: propsWith_def)
  have idx: "lastShownNonLocalEchoIndex exampleEnv (constructor False) ?P = 3"
    by code_simp
  have i3: "3 < length exampleLog" "getId (exampleLog ! 3) = ''$B''"
    by (simp_all add: exampleLog_def message_def)
  have "\<exists>ns t. getEventTiles 1 exampleEnv (constructor False) ?P = Some (Inr (ns, t))"
    using read_marker_anchor [of ?P "''$B''" "constructor False" True 1 exampleEnv "[]"
        "constructor False" 3 "\<lambda>e. 0"] r
    by (simp add: exampleLog_no_replies)
  then obtain ns t where g: "getEventTiles 1 exampleEnv (constructor False) ?P = Some (Inr (ns, t))"
    by blast
  from read_marker_anchor [of ?P "''$B''" "constructor False" True 1 exampleEnv ns t 3 "\<lambda>e. 0"] g
  have "ReadMarker ''$B'' False \<in> set ns \<longleftrightarrow>
      readMarkerEventId ?P = Some ''$B'' \<and>
      (\<exists>i < length (events ?P). getId (events ?P ! i) = ''$B'' \<and>
         False = (readMarkerVisible ?P \<and>
                  int i < lastShownNonLocalEchoIndex exampleEnv (constructor False) ?P))"
    by blast
  moreover have "\<exists>i < length (events ?P). getId (events ?P ! i) = ''$B'' \<and>
         False = (readMarkerVisible ?P \<and>
                  int i < lastShownNonLocalEchoIndex exampleEnv (constructor False) ?P)"
    unfolding e idx using i3 by (intro exI [of _ 3]) simp
  ultimately have "ReadMarker ''$B'' False \<in> set ns"
    using mk by blast
  with r v idx g show ?thesis by blast
qed

lemma markerAt_nodes:
  "concat (map tileEvent (markerAt this props lastIndex i)) = []"
  "filter isMarkerNode (markerAt this props lastIndex i) = markerAt this props lastIndex i"
  by (auto simp: markerAt_def readMarkerForEvent_def Let_def)

lemma blockAt_parts:
  assumes "blockAt depth env this props lastShown lastIndex i = Some block"
  shows "concat (map tileEvent block) =
           (if shouldShowEvent env this props (events props ! i) then [events props ! i] else [])"
    and "filter isMarkerNode block = markerAt this props lastIndex i"
proof -
  have "concat (map tileEvent block) =
           (if shouldShowEvent env this props (events props ! i) then [events props ! i] else []) \<and>
        filter isMarkerNode block = markerAt this props lastIndex i"
  proof (cases "shouldShowEvent env this props (events props ! i)")
    case False
    with assms have "block = markerAt this props lastIndex i"
      by (simp add: blockAt_def Let_def markerAt_def)
    with False show ?thesis by (simp add: markerAt_nodes)
  next
    case True
    with assms obtain tiles where
      t: "getTilesForEvent depth env this props (prevShownEvent env this props i)
            (events props ! i) (Some (Some (events props ! i) = lastShown))
            (fst (getNextEventInfo env this props (events props) i))
            (snd (getNextEventInfo env this props (events props) i)) 0 = Some tiles"
      and b: "block = tiles @ markerAt this props lastIndex i"
      by (auto simp: blockAt_def Let_def markerAt_def)
    from getTilesForEvent_Some [OF t] obtain tile subtiles where
      "tiles = [EventTile tile subtiles]" "tile_event tile = events props ! i" by blast
    with b True show ?thesis
      by (simp add: markerAt_nodes)
  qed
  then show "concat (map tileEvent block) =
           (if shouldShowEvent env this props (events props ! i) then [events props ! i] else [])"
    and "filter isMarkerNode block = markerAt this props lastIndex i"
    by simp_all
qed

lemma concat_if_filter:
  "concat (map (\<lambda>i. if P (xs ! i) then [xs ! i] else []) [0..<length xs]) = filter P xs"
proof -
  have a: "concat (map (\<lambda>x. if P x then [x] else []) ys) = filter P ys" for ys
    by (induction ys) simp_all
  have "map (\<lambda>i. if P (xs ! i) then [xs ! i] else []) [0..<length xs] =
        map (\<lambda>x. if P x then [x] else []) xs"
    by (rule nth_equalityI) simp_all
  then show ?thesis by (simp only: a)
qed

lemma concat_map_concat:
  "concat (map f (concat xss)) = concat (map (\<lambda>xs. concat (map f xs)) xss)"
  by (induction xss) simp_all

lemma map_blocks_upt:
  assumes "length blocks = n" and "\<And>i. i < n \<Longrightarrow> g (blocks ! i) = h i"
  shows "map g blocks = map h [0..<n]"
  using assms by (intro nth_equalityI) simp_all



text \<open>
  C9, as stated, fails in its last part. The read marker is on the hidden event \<open>$h0\<close>,
  the first of the log \<open>[$h0, $A]\<close>: the render list starts with the marker node of \<open>$h0\<close>,
  so the check was made after an event that is not shown.
\<close>

theorem render_order_counterexample:
  "getEventTiles 1 exampleEnv (constructor False)
     (propsWith markedLog (Some roomA) (Some ''$h0'') True)
     = Some (Inr ([ReadMarker ''$h0'' True, EventTile tileA []],
                  panelAfterFirst\<lparr>readReceiptsByEvent := [(''$A'', [seenBy ''@bob:hs'' 7])]\<rparr>)) \<and>
   markedLog ! 0 = hiddenEvent 10 ''$h0'' 0 \<and>
   getId (hiddenEvent 10 ''$h0'' 0) = ''$h0'' \<and>
   \<not> shouldShowEvent exampleEnv (constructor False)
       (propsWith markedLog (Some roomA) (Some ''$h0'') True) (hiddenEvent 10 ''$h0'' 0)"
proof -
  have "getEventTiles 1 exampleEnv (constructor False)
     (propsWith markedLog (Some roomA) (Some ''$h0'') True)
     = Some (Inr ([ReadMarker ''$h0'' True, EventTile tileA []],
                  panelAfterFirst\<lparr>readReceiptsByEvent := [(''$A'', [seenBy ''@bob:hs'' 7])]\<rparr>))"
    by code_simp
  then show ?thesis
    by (simp add: exampleLog_shown markedLog_def) (simp add: hiddenEvent_def message_def)
qed

text \<open>
  C9, amended. The render list follows the log order. It is the concatenation, over the
  events of the log in order, of the event's tile when the event is shown, followed by the
  read-marker or ghost node of the event's id when there is one: the read-marker check is
  made after every event of the log, shown or hidden. So the tiles of the list are the
  shown events in log order, and the marker nodes of the list are those of all events in
  log order. A tile holds, nested in it and one level deeper, the tiles of the replies to
  its event in log order. The call returns when the room is there (or receipts are off)
  and the replies of the log form no cycle within the recursion depth.
\<close>

theorem render_list_order:
  "(getEventTiles depth env this props = Some (Inr (nodes, this')) \<longrightarrow>
      (\<exists>blocks. nodes = concat blocks \<and>
         map Some blocks =
           map (blockAt depth env this' props (lastShownEvent env this' props)
                  (lastShownNonLocalEchoIndex env this props)) [0..<length (events props)]) \<and>
      concat (map tileEvent nodes) = filter (shouldShowEvent env this props) (events props) \<and>
      filter isMarkerNode nodes =
        concat (map (markerAt this props (lastShownNonLocalEchoIndex env this props))
                  [0..<length (events props)])) \<and>
   (getTilesForEvent d env this props prevEvent mxEv isLast nextEvent nextTile level = Some tiles \<longrightarrow>
      (\<exists>tile subtiles. tiles = [EventTile tile subtiles] \<and>
         tile_event tile = mxEv \<and> tile_level tile = level \<and>
         map Some subtiles =
           map (\<lambda>e. getTilesForEvent (d - 1) env this props None e None None None (level + 1))
             (directSubevents props mxEv))) \<and>
   ((showReadReceipts props \<longrightarrow> room props \<noteq> None) \<and>
    (\<forall>p \<in> set (events props). \<forall>c \<in> set (directSubevents props p). rank c < rank p) \<and>
    (\<forall>e \<in> set (events props). rank e < depth) \<longrightarrow>
      (\<exists>ns t. getEventTiles depth env this props = Some (Inr (ns, t))))"
proof -
  have a: "(\<exists>blocks. nodes = concat blocks \<and>
         map Some blocks =
           map (blockAt depth env this' props (lastShownEvent env this' props)
                  (lastShownNonLocalEchoIndex env this props)) [0..<length (events props)]) \<and>
      concat (map tileEvent nodes) = filter (shouldShowEvent env this props) (events props) \<and>
      filter isMarkerNode nodes =
        concat (map (markerAt this props (lastShownNonLocalEchoIndex env this props))
                  [0..<length (events props)])"
    if g: "getEventTiles depth env this props = Some (Inr (nodes, this'))"
  proof -
    note f = getEventTiles_Inr(1) [OF g]
    have idx: "lastShownNonLocalEchoIndex env this' props = lastShownNonLocalEchoIndex env this props"
      unfolding lastShownNonLocalEchoIndex_def by (simp add: reverseScan_same_flag [OF f])
    have sh: "shouldShowEvent env this' props = shouldShowEvent env this props"
      by (rule shouldShowEvent_same_flag [OF f])
    have mk: "markerAt this' props = markerAt this props"
      by (simp add: markerAt_def readMarkerForEvent_def getEventTiles_Inr(2) [OF g] fun_eq_iff)
    from getEventTiles_blocks [OF g] obtain blocks where
      n: "nodes = concat blocks"
      and m: "map Some blocks =
             map (blockAt depth env this' props (lastShownEvent env this' props)
                    (lastShownNonLocalEchoIndex env this props)) [0..<length (events props)]"
      by (auto simp: idx)
    note l = map_Some_eq_map_upt(1) [OF m] and bi = map_Some_eq_map_upt(2) [OF m]
    have "map (\<lambda>b. concat (map tileEvent b)) blocks =
          map (\<lambda>i. if shouldShowEvent env this props (events props ! i)
                    then [events props ! i] else []) [0..<length (events props)]"
      using blockAt_parts(1) [OF bi] by (intro map_blocks_upt [OF l]) (simp add: sh)
    then have t: "concat (map tileEvent nodes) =
                    filter (shouldShowEvent env this props) (events props)"
      unfolding n concat_map_concat by (simp only: concat_if_filter)
    have "map (filter isMarkerNode) blocks =
          map (markerAt this props (lastShownNonLocalEchoIndex env this props))
            [0..<length (events props)]"
      using blockAt_parts(2) [OF bi] by (intro map_blocks_upt [OF l]) (simp add: mk)
    then have k: "filter isMarkerNode nodes =
        concat (map (markerAt this props (lastShownNonLocalEchoIndex env this props))
                  [0..<length (events props)])"
      unfolding n by (simp add: filter_concat)
    from n m t k show ?thesis by blast
  qed
  have b: "\<exists>tile subtiles. tiles = [EventTile tile subtiles] \<and>
         tile_event tile = mxEv \<and> tile_level tile = level \<and>
         map Some subtiles =
           map (\<lambda>e. getTilesForEvent (d - 1) env this props None e None None None (level + 1))
             (directSubevents props mxEv)"
    if "getTilesForEvent d env this props prevEvent mxEv isLast nextEvent nextTile level = Some tiles"
    using getTilesForEvent_Some [OF that] by auto
  have c: "(showReadReceipts props \<longrightarrow> room props \<noteq> None) \<and>
    (\<forall>p \<in> set (events props). \<forall>c \<in> set (directSubevents props p). rank c < rank p) \<and>
    (\<forall>e \<in> set (events props). rank e < depth) \<longrightarrow>
      (\<exists>ns t. getEventTiles depth env this props = Some (Inr (ns, t)))"
    using getEventTiles_returns [of props rank depth env this] by blast
  from a b c show ?thesis by blast
qed

text \<open>
  A log with a reply: \<open>$R\<close> answers \<open>$A\<close> and is drawn inside the tile of \<open>$A\<close>; the tiles of
  the list are \<open>$A\<close> and \<open>$B\<close>, and the read marker of \<open>$A\<close> is the only marker node.
\<close>

theorem render_list_order_witness:
  "room (propsWith threadLog (Some roomA) (Some ''$A'') True) \<noteq> None \<and>
   (\<exists>nodes this'.
      getEventTiles 2 exampleEnv (constructor False)
        (propsWith threadLog (Some roomA) (Some ''$A'') True) = Some (Inr (nodes, this')) \<and>
      concat (map tileEvent nodes) = [message 11 ''$A'' 1 None, message 13 ''$B'' 3 None] \<and>
      filter isMarkerNode nodes = [ReadMarker ''$A'' True])"
proof -
  let ?P = "propsWith threadLog (Some roomA) (Some ''$A'') True"
  have r: "room ?P \<noteq> None"
    by (simp add: propsWith_def)
  have rk: "\<forall>p \<in> set (events ?P). \<forall>c \<in> set (directSubevents ?P p). threadRank c < threadRank p"
    by code_simp
  have dp: "\<forall>e \<in> set (events ?P). threadRank e < 2"
    by (simp add: threadRank_def)
  have sh: "filter (shouldShowEvent exampleEnv (constructor False) ?P) (events ?P)
              = [message 11 ''$A'' 1 None, message 13 ''$B'' 3 None]"
    by code_simp
  have mk: "concat (map (markerAt (constructor False) ?P
                (lastShownNonLocalEchoIndex exampleEnv (constructor False) ?P))
              [0..<length (events ?P)]) = [ReadMarker ''$A'' True]"
    by code_simp
  have "\<exists>ns t. getEventTiles 2 exampleEnv (constructor False) ?P = Some (Inr (ns, t))"
    using render_list_order [of 2 exampleEnv "constructor False" ?P "[]" "constructor False"
        0 None "message 11 ''$A'' 1 None" None None None 0 "[]" threadRank] r rk dp
    by blast
  then obtain ns t where g: "getEventTiles 2 exampleEnv (constructor False) ?P = Some (Inr (ns, t))"
    by blast
  from render_list_order [of 2 exampleEnv "constructor False" ?P ns t
        0 None "message 11 ''$A'' 1 None" None None None 0 "[]" threadRank] g
  have "concat (map tileEvent ns) = filter (shouldShowEvent exampleEnv (constructor False) ?P) (events ?P)"
    and "filter isMarkerNode ns =
        concat (map (markerAt (constructor False) ?P
                (lastShownNonLocalEchoIndex exampleEnv (constructor False) ?P))
              [0..<length (events ?P)])"
    by blast+
  with sh mk r g show ?thesis by simp
qed

section \<open>The last-successful flag of the rendered tiles\<close>

lemma isLastSuccessful_same_flag:
  assumes "showHiddenEventsInTimeline a = showHiddenEventsInTimeline b"
  shows "isLastSuccessful env a props mxEv nextEvent nextTile =
         isLastSuccessful env b props mxEv nextEvent nextTile"
  by (simp add: isLastSuccessful_conv shouldShowEvent_same_flag [OF assms])

lemma lastSuccessfulAt_same_flag:
  assumes "showHiddenEventsInTimeline a = showHiddenEventsInTimeline b"
  shows "lastSuccessfulAt env a props i = lastSuccessfulAt env b props i"
  by (simp add: lastSuccessfulAt_conv shouldShowEvent_same_flag [OF assms])

lemma markerAt_no_flag: "concat (map tileFlag (markerAt this props lastIndex i)) = []"
  by (auto simp: markerAt_def readMarkerForEvent_def Let_def)

lemma blockAt_flag:
  assumes "blockAt depth env this props lastShown lastIndex i = Some block"
  shows "concat (map tileFlag block) =
           (if shouldShowEvent env this props (events props ! i)
            then [(events props ! i, lastSuccessfulAt env this props i)] else [])"
proof (cases "shouldShowEvent env this props (events props ! i)")
  case False
  with assms have "block = markerAt this props lastIndex i"
    by (simp add: blockAt_def Let_def markerAt_def)
  with False show ?thesis by (simp add: markerAt_no_flag)
next
  case True
  with assms obtain tiles where
    t: "getTilesForEvent depth env this props (prevShownEvent env this props i)
          (events props ! i) (Some (Some (events props ! i) = lastShown))
          (fst (getNextEventInfo env this props (events props) i))
          (snd (getNextEventInfo env this props (events props) i)) 0 = Some tiles"
    and b: "block = tiles @ markerAt this props lastIndex i"
    by (auto simp: blockAt_def Let_def markerAt_def)
  from getTilesForEvent_Some [OF t] obtain tile subtiles where
    "tiles = [EventTile tile subtiles]" "tile_event tile = events props ! i"
    "lastSuccessful tile = lastSuccessfulAt env this props i"
    by (auto simp: lastSuccessfulAt_def Let_def)
  with b True show ?thesis
    by (simp add: markerAt_no_flag)
qed

lemma concat_if_map_filter:
  "concat (map (\<lambda>i. if P i then [f i] else []) xs) = map f (filter P xs)"
  by (induction xs) simp_all

lemma getEventTiles_flags:
  assumes g: "getEventTiles depth env this props = Some (Inr (nodes, this'))"
  shows "concat (map tileFlag nodes) =
           map (\<lambda>i. (events props ! i, lastSuccessfulAt env this props i))
             (filter (\<lambda>i. shouldShowEvent env this props (events props ! i))
                [0..<length (events props)])"
proof -
  note f = getEventTiles_Inr(1) [OF g]
  have sh: "shouldShowEvent env this' props = shouldShowEvent env this props"
    by (rule shouldShowEvent_same_flag [OF f])
  have ls: "lastSuccessfulAt env this' props = lastSuccessfulAt env this props"
    using lastSuccessfulAt_same_flag [OF f] by (simp add: fun_eq_iff)
  from getEventTiles_blocks [OF g] obtain blocks where
    n: "nodes = concat blocks"
    and m: "map Some blocks =
           map (blockAt depth env this' props (lastShownEvent env this' props)
                  (lastShownNonLocalEchoIndex env this' props)) [0..<length (events props)]"
    by blast
  note l = map_Some_eq_map_upt(1) [OF m] and bi = map_Some_eq_map_upt(2) [OF m]
  have "map (\<lambda>b. concat (map tileFlag b)) blocks =
        map (\<lambda>i. if shouldShowEvent env this props (events props ! i)
                  then [(events props ! i, lastSuccessfulAt env this props i)] else [])
          [0..<length (events props)]"
    using blockAt_flag [OF bi] by (intro map_blocks_upt [OF l]) (simp add: sh ls)
  then show ?thesis
    unfolding n concat_map_concat by (simp only: concat_if_map_filter)
qed

lemma getTilesForEvent_reply_flags:
  assumes "getTilesForEvent depth env this props prevEvent mxEv isLast nextEvent nextTile level
             = Some tiles"
  shows "\<exists>tile subtiles. tiles = [EventTile tile subtiles] \<and> tile_event tile = mxEv \<and>
           lastSuccessful tile = isLastSuccessful env this props mxEv nextEvent nextTile \<and>
           map (\<lambda>sub. concat (map tileFlag sub)) subtiles =
             map (\<lambda>e. [(e, getSender e = getUserId env \<and> isSentState (getAssociatedStatus e))])
               (directSubevents props mxEv)"
proof -
  from getTilesForEvent_Some [OF assms] obtain d tile subtiles where
    t: "tiles = [EventTile tile subtiles]" "tile_event tile = mxEv"
      "lastSuccessful tile = isLastSuccessful env this props mxEv nextEvent nextTile"
    and s: "map Some subtiles =
             map (\<lambda>e. getTilesForEvent d env this props None e None None None (level + 1))
               (directSubevents props mxEv)"
    by blast
  from s have len: "length subtiles = length (directSubevents props mxEv)"
    by (metis length_map)
  have "map (\<lambda>sub. concat (map tileFlag sub)) subtiles =
          map (\<lambda>e. [(e, getSender e = getUserId env \<and> isSentState (getAssociatedStatus e))])
            (directSubevents props mxEv)"
  proof (rule nth_equalityI)
    show "length (map (\<lambda>sub. concat (map tileFlag sub)) subtiles) =
          length (map (\<lambda>e. [(e, getSender e = getUserId env \<and> isSentState (getAssociatedStatus e))])
            (directSubevents props mxEv))"
      by (simp add: len)
  next
    fix k assume "k < length (map (\<lambda>sub. concat (map tileFlag sub)) subtiles)"
    then have k: "k < length subtiles" "k < length (directSubevents props mxEv)"
      by (simp_all add: len)
    let ?e = "directSubevents props mxEv ! k"
    from k have "map Some subtiles ! k = Some (subtiles ! k)" by simp
    moreover from k have
      "map (\<lambda>e. getTilesForEvent d env this props None e None None None (level + 1))
         (directSubevents props mxEv) ! k =
       getTilesForEvent d env this props None ?e None None None (level + 1)" by simp
    ultimately have
      "getTilesForEvent d env this props None ?e None None None (level + 1) = Some (subtiles ! k)"
      using s by simp
    from getTilesForEvent_Some [OF this] obtain t' s' where
      "subtiles ! k = [EventTile t' s']" "tile_event t' = ?e"
      "lastSuccessful t' = isLastSuccessful env this props ?e None None"
      by blast
    then show "map (\<lambda>sub. concat (map tileFlag sub)) subtiles ! k =
          map (\<lambda>e. [(e, getSender e = getUserId env \<and> isSentState (getAssociatedStatus e))])
            (directSubevents props mxEv) ! k"
      using k by (auto simp: isLastSuccessful_conv)
  qed
  with t show ?thesis by blast
qed

text \<open>
  C2, as stated, fails for the tile of a reply. In the log \<open>[$A, $R, $B]\<close>, all of the
  local user and all sent, \<open>$R\<close> answers \<open>$A\<close>. The tile of \<open>$R\<close> is built inside the tile of
  \<open>$A\<close> with no look-ahead, and it is flagged although the next event of the log, \<open>$B\<close>, is
  shown and sent.
\<close>

theorem lastSuccessful_reply_counterexample:
  "getEventTiles 2 exampleEnv (constructor False) (propsWith threadLog (Some roomA) None False)
     = Some (Inr ([EventTile threadTileA [[EventTile threadTileR []]], EventTile threadTileB []],
                  panelAfterFirst\<lparr>readReceiptsByEvent :=
                     [(''$A'', [seenBy ''@bob:hs'' 7]), (''$B'', [])]\<rparr>)) \<and>
   tile_event threadTileR = reply 12 ''$R'' 2 ''$A'' \<and>
   lastSuccessful threadTileR \<and>
   getSender (reply 12 ''$R'' 2 ''$A'') = getUserId exampleEnv \<and>
   threadLog ! 1 = reply 12 ''$R'' 2 ''$A'' \<and>
   threadLog ! 2 = message 13 ''$B'' 3 None \<and>
   shouldShowEvent exampleEnv (constructor False)
     (propsWith threadLog (Some roomA) None False) (message 13 ''$B'' 3 None) \<and>
   isSentState (getAssociatedStatus (message 13 ''$B'' 3 None))"
proof -
  have "getEventTiles 2 exampleEnv (constructor False) (propsWith threadLog (Some roomA) None False)
     = Some (Inr ([EventTile threadTileA [[EventTile threadTileR []]], EventTile threadTileB []],
                  panelAfterFirst\<lparr>readReceiptsByEvent :=
                     [(''$A'', [seenBy ''@bob:hs'' 7]), (''$B'', [])]\<rparr>))"
    by code_simp
  then show ?thesis
    by (simp add: exampleLog_shown threadLog_def threadTileR_def)
       (simp add: reply_def message_def exampleEnv_def isSentState_def truthy_def)
qed

text \<open>
  C2, amended. In the list that \<^verbatim>\<open>_getEventTiles\<close> returns, the tiles of the shown events
  of the log carry, in log order, the flag computed with the look-ahead of the event: it
  is true exactly when the event was sent by the local user, its own send status is absent
  or \<^verbatim>\<open>sent\<close>, and the first shown event after it, if any, is not yet sent. That is the
  flag computation of \<^verbatim>\<open>_getTilesForEvent\<close>: own event, own status absent or \<^verbatim>\<open>sent\<close>, the
  immediately next event absent, not shown or not yet sent, and the next event with a
  tile, when it is not the immediately next event, not sent either. The tile of a reply,
  nested in its parent's tile, is built with no look-ahead: its flag is true exactly when
  the reply is the local user's and its status is absent or \<^verbatim>\<open>sent\<close>, whatever follows in
  the log. For a log of three shown events of the local user whose statuses are sent,
  sent, not yet sent, only the tile of the second is flagged.
\<close>

theorem lastSuccessful_rendered:
  "(getEventTiles depth env this props = Some (Inr (nodes, this')) \<longrightarrow>
      concat (map tileFlag nodes) =
        map (\<lambda>i. (events props ! i, lastSuccessfulAt env this props i))
          (filter (\<lambda>i. shouldShowEvent env this props (events props ! i))
             [0..<length (events props)])) \<and>
   (lastSuccessfulAt env this props i \<longleftrightarrow>
      getSender (events props ! i) = getUserId env \<and>
      isSentState (getAssociatedStatus (events props ! i)) \<and>
      (\<forall>t. find (shouldShowEvent env this props) (drop (Suc i) (events props)) = Some t \<longrightarrow>
           \<not> isSentState (getAssociatedStatus t))) \<and>
   (getTilesForEvent d env this props prevEvent mxEv isLast nextEvent nextTile level = Some tiles \<longrightarrow>
      (\<exists>tile subtiles. tiles = [EventTile tile subtiles] \<and> tile_event tile = mxEv \<and>
         lastSuccessful tile = isLastSuccessful env this props mxEv nextEvent nextTile \<and>
         map (\<lambda>sub. concat (map tileFlag sub)) subtiles =
           map (\<lambda>e. [(e, getSender e = getUserId env \<and> isSentState (getAssociatedStatus e))])
             (directSubevents props mxEv))) \<and>
   (isLastSuccessful env this props mxEv nextEvent nextTile \<longleftrightarrow>
      getSender mxEv = getUserId env \<and> isSentState (getAssociatedStatus mxEv) \<and>
      (\<forall>n. nextEvent = Some n \<and> shouldShowEvent env this props n \<longrightarrow>
           \<not> isSentState (getAssociatedStatus n)) \<and>
      (\<forall>t. nextTile = Some t \<and> Some t \<noteq> nextEvent \<longrightarrow>
           \<not> isSentState (getAssociatedStatus t))) \<and>
   (getEventTiles depth env this props = Some (Inr (nodes, this')) \<and>
    events props = [e0, e1, e2] \<and>
    (\<forall>e \<in> {e0, e1, e2}. shouldShowEvent env this props e \<and> getSender e = getUserId env) \<and>
    isSentState (getAssociatedStatus e0) \<and> isSentState (getAssociatedStatus e1) \<and>
    \<not> isSentState (getAssociatedStatus e2) \<longrightarrow>
      concat (map tileFlag nodes) = [(e0, False), (e1, True), (e2, False)]) \<and>
   ((showReadReceipts props \<longrightarrow> room props \<noteq> None) \<and>
    (\<forall>p \<in> set (events props). \<forall>c \<in> set (directSubevents props p). rank c < rank p) \<and>
    (\<forall>e \<in> set (events props). rank e < depth) \<longrightarrow>
      (\<exists>ns t. getEventTiles depth env this props = Some (Inr (ns, t))))"
proof -
  have a: "getEventTiles depth env this props = Some (Inr (nodes, this')) \<longrightarrow>
      concat (map tileFlag nodes) =
        map (\<lambda>i. (events props ! i, lastSuccessfulAt env this props i))
          (filter (\<lambda>i. shouldShowEvent env this props (events props ! i))
             [0..<length (events props)])"
    using getEventTiles_flags by blast
  note b = lastSuccessfulAt_conv [of env this props i]
  have c: "getTilesForEvent d env this props prevEvent mxEv isLast nextEvent nextTile level = Some tiles \<longrightarrow>
      (\<exists>tile subtiles. tiles = [EventTile tile subtiles] \<and> tile_event tile = mxEv \<and>
         lastSuccessful tile = isLastSuccessful env this props mxEv nextEvent nextTile \<and>
         map (\<lambda>sub. concat (map tileFlag sub)) subtiles =
           map (\<lambda>e. [(e, getSender e = getUserId env \<and> isSentState (getAssociatedStatus e))])
             (directSubevents props mxEv))"
    using getTilesForEvent_reply_flags by blast
  note d = isLastSuccessful_conv [of env this props mxEv nextEvent nextTile]
  have e: "getEventTiles depth env this props = Some (Inr (nodes, this')) \<and>
    events props = [e0, e1, e2] \<and>
    (\<forall>e \<in> {e0, e1, e2}. shouldShowEvent env this props e \<and> getSender e = getUserId env) \<and>
    isSentState (getAssociatedStatus e0) \<and> isSentState (getAssociatedStatus e1) \<and>
    \<not> isSentState (getAssociatedStatus e2) \<longrightarrow>
      concat (map tileFlag nodes) = [(e0, False), (e1, True), (e2, False)]"
  proof
    assume h: "getEventTiles depth env this props = Some (Inr (nodes, this')) \<and>
      events props = [e0, e1, e2] \<and>
      (\<forall>e \<in> {e0, e1, e2}. shouldShowEvent env this props e \<and> getSender e = getUserId env) \<and>
      isSentState (getAssociatedStatus e0) \<and> isSentState (getAssociatedStatus e1) \<and>
      \<not> isSentState (getAssociatedStatus e2)"
    then have ev: "events props = [e0, e1, e2]" by simp
    have u: "[0..<length (events props)] = [0, Suc 0, 2]"
      by (simp add: ev upt_rec)
    from h have f0: "\<not> lastSuccessfulAt env this props 0"
      and f1: "lastSuccessfulAt env this props (Suc 0)"
      and f2: "\<not> lastSuccessfulAt env this props 2"
      by (simp_all add: lastSuccessfulAt_conv)
    from h have g: "getEventTiles depth env this props = Some (Inr (nodes, this'))" by simp
    from h show "concat (map tileFlag nodes) = [(e0, False), (e1, True), (e2, False)]"
      unfolding getEventTiles_flags [OF g] u
      by (simp add: f0 f1 f2)
  qed
  have f: "(showReadReceipts props \<longrightarrow> room props \<noteq> None) \<and>
    (\<forall>p \<in> set (events props). \<forall>c \<in> set (directSubevents props p). rank c < rank p) \<and>
    (\<forall>e \<in> set (events props). rank e < depth) \<longrightarrow>
      (\<exists>ns t. getEventTiles depth env this props = Some (Inr (ns, t)))"
    using getEventTiles_returns [of props rank depth env this] by blast
  from a b c d e f show ?thesis by blast
qed

text \<open>
  A render with a room: the local user's three messages with the statuses absent,
  \<^verbatim>\<open>sent\<close> and \<^verbatim>\<open>not_sent\<close> give the flags false, true, false.
\<close>

theorem lastSuccessful_rendered_witness:
  "room (propsWith sendingLog (Some roomA) None False) \<noteq> None \<and>
   (\<exists>nodes this'.
      getEventTiles 1 exampleEnv (constructor False) (propsWith sendingLog (Some roomA) None False)
        = Some (Inr (nodes, this')) \<and>
      concat (map tileFlag nodes) =
        [(message 31 ''$a'' 0 None, False), (message 32 ''$b'' 10 (Some ''sent''), True),
         (message 33 ''$c'' 20 (Some ''not_sent''), False)])"
proof -
  let ?P = "propsWith sendingLog (Some roomA) None False"
  let ?a = "message 31 ''$a'' 0 None"
  let ?b = "message 32 ''$b'' 10 (Some ''sent'')"
  let ?c = "message 33 ''$c'' 20 (Some ''not_sent'')"
  have r: "room ?P \<noteq> None" and sr: "showReadReceipts ?P" and ev: "events ?P = [?a, ?b, ?c]"
    by (simp_all add: propsWith_def sendingLog_def)
  have rk: "\<forall>p \<in> set (events ?P). \<forall>c \<in> set (directSubevents ?P p). (0::nat) < 0"
    by code_simp
  have dp: "\<forall>e \<in> set (events ?P). (0::nat) < 1"
    by simp
  have own: "\<forall>e \<in> {?a, ?b, ?c}.
      shouldShowEvent exampleEnv (constructor False) ?P e \<and> getSender e = getUserId exampleEnv"
    by (simp add: exampleLog_shown) (simp add: message_def exampleEnv_def)
  have st: "isSentState (getAssociatedStatus ?a)" "isSentState (getAssociatedStatus ?b)"
    "\<not> isSentState (getAssociatedStatus ?c)"
    by (simp_all add: message_def isSentState_def truthy_def)
  have "\<exists>ns t. getEventTiles 1 exampleEnv (constructor False) ?P = Some (Inr (ns, t))"
    using lastSuccessful_rendered [of 1 exampleEnv "constructor False" ?P "[]" "constructor False"
        0 0 None ?a None None None 0 "[]" ?a ?b ?c "\<lambda>e. 0"] r rk dp
    by blast
  then obtain ns t where g: "getEventTiles 1 exampleEnv (constructor False) ?P = Some (Inr (ns, t))"
    by blast
  from lastSuccessful_rendered [of 1 exampleEnv "constructor False" ?P ns t
        0 0 None ?a None None None 0 "[]" ?a ?b ?c "\<lambda>e. 0"] g ev own st
  have "concat (map tileFlag ns) = [(?a, False), (?b, True), (?c, False)]"
    by blast
  with r g show ?thesis by blast
qed

end
